theory Spec2Isabelle
  imports Main "HOL-Library.AList"
begin

section \<open>JavaScript values, the object store, and thrown values\<close>

text \<open>
  The library passes JavaScript objects around by reference: the session's attribute
  object is the very object found in the request body, and \<open>getAttributes\<close> exists to
  break that sharing. Values are therefore modelled over an explicit store. A reference
  \<open>VRef a\<close> is the index of a cell of the store; a cell is a plain object (its own
  properties, in insertion order) or an array. Numbers are integers (floating point is
  not modelled).

  Two kinds of values refer to objects that exist before any program runs and that all
  programs share: \<open>VProto\<close> is the reference to \<open>Object.prototype\<close>, the object every
  plain object inherits from, and \<open>VBuiltin f\<close> is the reference to the function object
  that is its method \<open>f\<close>. These objects are mutable like any other, but they are not
  cells of the store: \<open>Object.prototype\<close> is taken as the language defines it, and what a
  program writes to these objects is not followed. What an array inherits, dates and
  \<open>toJSON\<close> methods are not modelled.
\<close>

datatype val = VUndef | VNull | VBool bool | VNum int | VStr string | VRef nat
  | VBuiltin string | VProto

datatype obj = Obj "(string \<times> val) list" | Arr "val list"

type_synonym heap = "obj list"

text \<open>
  A thrown value (or the reason of a rejection): a string (the library throws string
  literals such as \<open>"NO_SESSION"\<close>), an object with a \<open>message\<close> property (\<open>Error\<close>,
  \<open>TypeError\<close>), \<open>undefined\<close>, \<open>null\<close>, or any other value without a \<open>message\<close>, given
  by its truthiness and its conversion to a string.
\<close>

datatype exc = EStr string | EErr string | EUndefined | ENull | EOther bool string

definition truthy :: "val \<Rightarrow> bool" where
  "truthy v = (case v of VUndef \<Rightarrow> False | VNull \<Rightarrow> False | VBool b \<Rightarrow> b
     | VNum n \<Rightarrow> n \<noteq> 0 | VStr s \<Rightarrow> s \<noteq> [] | VRef a \<Rightarrow> True | VBuiltin f \<Rightarrow> True | VProto \<Rightarrow> True)"

text \<open>Own properties of the object at an address (none for an array or a missing cell).\<close>

definition fields_at :: "heap \<Rightarrow> nat \<Rightarrow> (string \<times> val) list" where
  "fields_at h a = (if a < length h then (case h ! a of Obj fs \<Rightarrow> fs | Arr vs \<Rightarrow> []) else [])"

text \<open>The methods every plain object inherits from \<open>Object.prototype\<close>.\<close>

definition object_prototype :: "string list" where
  "object_prototype = [''constructor'', ''__defineGetter__'', ''__defineSetter__'',
     ''hasOwnProperty'', ''__lookupGetter__'', ''__lookupSetter__'', ''isPrototypeOf'',
     ''propertyIsEnumerable'', ''toString'', ''valueOf'', ''toLocaleString'']"

text \<open>
  What a plain object that has no own property \<open>k\<close> finds under that name in
  \<open>Object.prototype\<close>: through the accessor \<open>__proto__\<close> its prototype, which is
  \<open>Object.prototype\<close> itself; a method; or nothing.
\<close>

definition inherited :: "string \<Rightarrow> val" where
  "inherited k =
     (if k = ''__proto__'' then VProto
      else if k \<in> set object_prototype then VBuiltin k else VUndef)"

text \<open>
  \<open>o[k]\<close> for a plain object with the own properties \<open>fs\<close>: the own property, else what
  it inherits.
\<close>

definition lookup_prop :: "(string \<times> val) list \<Rightarrow> string \<Rightarrow> val" where
  "lookup_prop fs k = (case map_of fs k of Some v \<Rightarrow> v | None \<Rightarrow> inherited k)"

text \<open>\<open>k in o\<close> for such an object.\<close>

definition has_prop :: "(string \<times> val) list \<Rightarrow> string \<Rightarrow> bool" where
  "has_prop fs k \<longleftrightarrow>
     k \<in> fst ` set fs \<or> k \<in> set object_prototype \<or> k = ''__proto__''"

subsection \<open>\<open>JSON.stringify\<close> and \<open>JSON.parse\<close>\<close>

datatype json = JNull | JBool bool | JNum int | JStr string
  | JObj "(string \<times> json) list" | JArr "json list"

fun sequence :: "(exc + 'a) list \<Rightarrow> exc + 'a list" where
  "sequence [] = Inr []"
| "sequence (x # xs) =
     (case x of Inl e \<Rightarrow> Inl e
      | Inr y \<Rightarrow> (case sequence xs of Inl e \<Rightarrow> Inl e | Inr ys \<Rightarrow> Inr (y # ys)))"

text \<open>Continue with the result of a step that did not throw.\<close>

definition on_result :: "('a \<Rightarrow> 'b) \<Rightarrow> exc + 'a \<Rightarrow> exc + 'b" where
  "on_result f x = (case x of Inl e \<Rightarrow> Inl e | Inr y \<Rightarrow> Inr (f y))"

definition cyclic_error :: exc where
  "cyclic_error = EErr ''Converting circular structure to JSON''"

text \<open>A reference to a cell the store does not have cannot arise in JavaScript.\<close>

definition dangling_error :: exc where
  "dangling_error = EErr ''reference outside the store''"

text \<open>A property whose value serialises to \<open>undefined\<close> is omitted from an object.\<close>

fun keep_defined :: "(string \<times> json option) list \<Rightarrow> (string \<times> json) list" where
  "keep_defined [] = []"
| "keep_defined ((k, None) # xs) = keep_defined xs"
| "keep_defined ((k, Some j) # xs) = (k, j) # keep_defined xs"

text \<open>An array element that serialises to \<open>undefined\<close> becomes \<open>null\<close>.\<close>

definition null_if_undefined :: "json option \<Rightarrow> json" where
  "null_if_undefined x = (case x of None \<Rightarrow> JNull | Some j \<Rightarrow> j)"

text \<open>
  \<open>JSON.stringify\<close>, producing the JSON document as a tree (\<open>None\<close> for the result
  \<open>undefined\<close>, which is also what a function serialises to). The second argument is
  the stack of objects being serialised: meeting one of them again is a circular
  structure, for which \<open>JSON.stringify\<close> throws a \<open>TypeError\<close>. \<open>Object.prototype\<close> has no
  enumerable property of its own, so it serialises to the empty object.
\<close>

function stringify :: "heap \<Rightarrow> nat list \<Rightarrow> val \<Rightarrow> exc + json option" where
  "stringify h stk VUndef = Inr None"
| "stringify h stk VNull = Inr (Some JNull)"
| "stringify h stk (VBool b) = Inr (Some (JBool b))"
| "stringify h stk (VNum n) = Inr (Some (JNum n))"
| "stringify h stk (VStr s) = Inr (Some (JStr s))"
| "stringify h stk (VRef a) =
     (if length h \<le> a then Inl dangling_error
      else if a \<in> set stk then Inl cyclic_error
      else (case h ! a of
          Obj fs \<Rightarrow>
            on_result (\<lambda>rs. Some (JObj (keep_defined rs)))
              (sequence (map (\<lambda>p. on_result (Pair (fst p)) (stringify h (a # stk) (snd p))) fs))
        | Arr vs \<Rightarrow>
            on_result (\<lambda>rs. Some (JArr (map null_if_undefined rs)))
              (sequence (map (\<lambda>v. stringify h (a # stk) v) vs))))"
| "stringify h stk (VBuiltin f) = Inr None"
| "stringify h stk VProto = Inr (Some (JObj []))"
  by pat_completeness auto
termination
proof (relation "measure (\<lambda>(h, stk, v). card ({..<length h} - set stk))")
  show "wf (measure (\<lambda>(h, stk, v). card ({..<length h} - set stk)))" by simp
next
  fix h :: heap and stk :: "nat list" and a :: nat
  assume "\<not> length h \<le> a" and "a \<notin> set stk"
  then have "a \<in> {..<length h} - set stk" by simp
  then have "card ({..<length h} - set stk - {a}) < card ({..<length h} - set stk)"
    by (intro card_Diff1_less) simp_all
  moreover have "{..<length h} - set (a # stk) = {..<length h} - set stk - {a}" by auto
  ultimately have m: "card ({..<length h} - set (a # stk)) < card ({..<length h} - set stk)"
    by simp
  { fix v
    show "((h, a # stk, v), h, stk, VRef a)
            \<in> measure (\<lambda>(h, stk, v). card ({..<length h} - set stk))"
      using m by simp }
  { fix v
    show "((h, a # stk, v), h, stk, VRef a)
            \<in> measure (\<lambda>(h, stk, v). card ({..<length h} - set stk))"
      using m by simp }
qed

text \<open>
  \<open>JSON.parse\<close> of a JSON document: every object and array of the document is a new
  cell of the store (the members first, then the object that holds them).
\<close>

fun build :: "heap \<Rightarrow> json \<Rightarrow> val \<times> heap"
  and build_fields :: "heap \<Rightarrow> (string \<times> json) list \<Rightarrow> (string \<times> val) list \<times> heap"
  and build_elems :: "heap \<Rightarrow> json list \<Rightarrow> val list \<times> heap" where
  "build h JNull = (VNull, h)"
| "build h (JBool b) = (VBool b, h)"
| "build h (JNum n) = (VNum n, h)"
| "build h (JStr s) = (VStr s, h)"
| "build h (JObj fs) = (case build_fields h fs of (vs, h') \<Rightarrow> (VRef (length h'), h' @ [Obj vs]))"
| "build h (JArr js) = (case build_elems h js of (vs, h') \<Rightarrow> (VRef (length h'), h' @ [Arr vs]))"
| "build_fields h [] = ([], h)"
| "build_fields h (kj # fs) =
     (case build h (snd kj) of (v, h1) \<Rightarrow>
        (case build_fields h1 fs of (vs, h2) \<Rightarrow> ((fst kj, v) # vs, h2)))"
| "build_elems h [] = ([], h)"
| "build_elems h (j # js) =
     (case build h j of (v, h1) \<Rightarrow>
        (case build_elems h1 js of (vs, h2) \<Rightarrow> (v # vs, h2)))"

section \<open>Session (src/src/Session.ts)\<close>

text \<open>
  The \<open>session\<close> member of a request body, as far as the constructor reads it.
  \<open>session.attributes\<close> is a reference to an object of the store, or absent.
\<close>

record user_payload =
  accessToken :: val
  userId :: val

record session_payload =
  sp_user :: "user_payload option"
  sp_attributes :: "nat option"
  sp_application :: val
  sp_new :: val
  sp_sessionId :: val

record details =
  d_accessToken :: val
  d_attributes :: "nat option"
  d_application :: val
  d_new :: val
  d_sessionId :: val
  d_userId :: val

text \<open>
  A \<open>Session\<close> object. \<open>attributes\<close> is the address of the attribute object;
  \<open>details = None\<close> is the empty object \<open>{}\<close>; \<open>isAvailable_field\<close> is the private
  \<open>_isAvailable\<close>, which the constructor leaves \<open>undefined\<close> (\<open>None\<close>) for an absent
  payload; \<open>no_session\<close> records that the constructor replaced \<open>isNew\<close>, \<open>get\<close>, \<open>set\<close>
  and \<open>clear\<close> of this instance by the function that throws \<open>"NO_SESSION"\<close>.
\<close>

record session =
  attributes :: nat
  details :: "details option"
  sessionId :: val
  isAvailable_field :: "bool option"
  no_session :: bool

definition NO_SESSION :: exc where
  "NO_SESSION = EStr ''NO_SESSION''"

text \<open>
  The \<open>TypeError\<close> of reading a property of \<open>undefined\<close>. The wording of its message is
  the engine's.
\<close>

definition cannot_read_message :: "string \<Rightarrow> string" where
  "cannot_read_message p =
     ''Cannot read property '' @ [CHR 0x27] @ p @ [CHR 0x27] @ '' of undefined''"

definition cannot_read :: "string \<Rightarrow> exc" where
  "cannot_read p = EErr (cannot_read_message p)"

definition Session :: "session_payload option \<Rightarrow> heap \<Rightarrow> exc + (session \<times> heap)" where
  "Session sp h =
     (case sp of
        None \<Rightarrow>
          Inr (\<lparr>attributes = length h, details = None, sessionId = VNull,
                isAvailable_field = None, no_session = True\<rparr>, h @ [Obj []])
      | Some p \<Rightarrow>
          (case sp_user p of
             None \<Rightarrow> Inl (cannot_read ''accessToken'')
           | Some u \<Rightarrow>
               (let d = \<lparr>d_accessToken = (if truthy (accessToken u) then accessToken u else VNull),
                         d_attributes = sp_attributes p,
                         d_application = sp_application p,
                         d_new = sp_new p,
                         d_sessionId = sp_sessionId p,
                         d_userId = userId u\<rparr>
                in (case sp_attributes p of
                      Some a \<Rightarrow>
                        Inr (\<lparr>attributes = a, details = Some d, sessionId = sp_sessionId p,
                              isAvailable_field = Some True, no_session = False\<rparr>, h)
                    | None \<Rightarrow>
                        Inr (\<lparr>attributes = length h, details = Some d,
                              sessionId = sp_sessionId p,
                              isAvailable_field = Some True, no_session = False\<rparr>,
                             h @ [Obj []])))))"

definition Session_clear :: "session \<Rightarrow> val \<Rightarrow> heap \<Rightarrow> exc + (session \<times> heap)" where
  "Session_clear s key h =
     (if no_session s then Inl NO_SESSION
      else (case key of
          VStr k \<Rightarrow>
            (if lookup_prop (fields_at h (attributes s)) k \<noteq> VUndef
             then Inr (s, h[attributes s := Obj (AList.delete k (fields_at h (attributes s)))])
             else Inr (s\<lparr>attributes := length h\<rparr>, h @ [Obj []]))
        | _ \<Rightarrow> Inr (s\<lparr>attributes := length h\<rparr>, h @ [Obj []])))"

definition Session_getAttributes :: "session \<Rightarrow> heap \<Rightarrow> exc + (val \<times> heap)" where
  "Session_getAttributes s h =
     (case stringify h [] (VRef (attributes s)) of
        Inl e \<Rightarrow> Inl e
      | Inr None \<Rightarrow> Inl (EErr ''Unexpected token u in JSON at position 0'')
      | Inr (Some j) \<Rightarrow> Inr (build h j))"

text \<open>
  \<open>v[key]\<close> for a value \<open>v\<close>: a property of the object referred to. The prototype of
  \<open>Object.prototype\<close> is \<open>null\<close>.
\<close>

definition index_val :: "heap \<Rightarrow> val \<Rightarrow> string \<Rightarrow> val" where
  "index_val h v k =
     (case v of
        VRef a \<Rightarrow> lookup_prop (fields_at h a) k
      | VProto \<Rightarrow> if k = ''__proto__'' then VNull else inherited k
      | _ \<Rightarrow> VUndef)"

definition Session_get :: "session \<Rightarrow> string \<Rightarrow> heap \<Rightarrow> exc + (val \<times> heap)" where
  "Session_get s key h =
     (if no_session s then Inl NO_SESSION
      else (case Session_getAttributes s h of
          Inl e \<Rightarrow> Inl e
        | Inr (v, h') \<Rightarrow> Inr (index_val h' v key, h')))"

definition Session_isAvailable :: "session \<Rightarrow> bool option" where
  "Session_isAvailable s = isAvailable_field s"

definition Session_isNew :: "session \<Rightarrow> exc + bool" where
  "Session_isNew s =
     (if no_session s then Inl NO_SESSION
      else Inr ((case details s of None \<Rightarrow> VUndef | Some d \<Rightarrow> d_new d) = VBool True))"

text \<open>
  \<open>set\<close>: \<open>this.attributes[key] = value\<close>. On an object without an own property
  \<open>__proto__\<close>, a write under that name goes to the setter inherited from
  \<open>Object.prototype\<close>, which creates no property. (When the value is an object or
  \<open>null\<close> the setter replaces the prototype of the attribute object; the plain objects
  of the model all inherit from \<open>Object.prototype\<close>, so this is not followed.)
\<close>

definition Session_set :: "session \<Rightarrow> string \<Rightarrow> val \<Rightarrow> heap \<Rightarrow> exc + heap" where
  "Session_set s key v h =
     (if no_session s then Inl NO_SESSION
      else if key = ''__proto__'' \<and> map_of (fields_at h (attributes s)) key = None then Inr h
      else Inr (h[attributes s := Obj (AList.update key v (fields_at h (attributes s)))]))"

section \<open>SSML helpers (class \<open>SSML\<close>, in src/src/Response.ts)\<close>

text \<open>
  Strings are lists of characters; the text handled here is taken to be ASCII, so that
  a character is a UTF-16 code unit of the source and the white space of the regular
  expression class \<open>\s\<close> and of \<open>trim\<close> is tab, line feed, vertical tab, form feed,
  carriage return and space.
\<close>

definition is_space :: "char \<Rightarrow> bool" where
  "is_space c = (c \<in> set [CHR 0x09, CHR 0x0A, CHR 0x0B, CHR 0x0C, CHR 0x0D, CHR '' ''])"

definition is_word :: "char \<Rightarrow> bool" where
  "is_word c = (c \<in> set ''abcdefghijklmnopqrstuvwxyzABCDEFGHIJKLMNOPQRSTUVWXYZ0123456789_'')"

definition lower :: "char \<Rightarrow> char" where
  "lower c = (case map_of (zip ''ABCDEFGHIJKLMNOPQRSTUVWXYZ'' ''abcdefghijklmnopqrstuvwxyz'') c of
                Some l \<Rightarrow> l | None \<Rightarrow> c)"

definition trim :: "string \<Rightarrow> string" where
  "trim s = rev (dropWhile is_space (rev (dropWhile is_space s)))"

text \<open>
  \<open>ci_prefix p s\<close>: the literal \<open>p\<close> matched at the start of \<open>s\<close> under the flag \<open>i\<close>;
  the result is the rest of \<open>s\<close>.
\<close>

fun ci_prefix :: "string \<Rightarrow> string \<Rightarrow> string option" where
  "ci_prefix [] s = Some s"
| "ci_prefix (p # ps) [] = None"
| "ci_prefix (p # ps) (c # cs) = (if lower c = lower p then ci_prefix ps cs else None)"

text \<open>
  \<open>str.replace(re, ...)\<close> with the flag \<open>g\<close>. The matcher gives the length of the match
  of \<open>re\<close> that starts at the head of its argument; the scan goes from left to right and
  resumes after each match (the counter is the number of characters of the current match
  still to skip). None of the expressions used matches the empty string.
\<close>

fun replace_scan :: "(string \<Rightarrow> nat option) \<Rightarrow> (string \<Rightarrow> string) \<Rightarrow> nat \<Rightarrow> string \<Rightarrow> string" where
  "replace_scan m r n [] = []"
| "replace_scan m r (Suc n) (c # cs) = replace_scan m r n cs"
| "replace_scan m r 0 (c # cs) =
     (case m (c # cs) of
        Some (Suc k) \<Rightarrow> r (take (Suc k) (c # cs)) @ replace_scan m r k cs
      | _ \<Rightarrow> c # replace_scan m r 0 cs)"

definition replace_all :: "(string \<Rightarrow> nat option) \<Rightarrow> (string \<Rightarrow> string) \<Rightarrow> string \<Rightarrow> string" where
  "replace_all m r s = replace_scan m r 0 s"

text \<open>\<open>str.replace(re, ...)\<close> without the flag \<open>g\<close>: the first match only.\<close>

fun replace_first :: "(string \<Rightarrow> nat option) \<Rightarrow> (string \<Rightarrow> string) \<Rightarrow> string \<Rightarrow> string" where
  "replace_first m r [] = []"
| "replace_first m r (c # cs) =
     (case m (c # cs) of
        Some (Suc k) \<Rightarrow> r (take (Suc k) (c # cs)) @ drop k cs
      | _ \<Rightarrow> c # replace_first m r cs)"

text \<open>The matchers of the expressions of \<open>fromStr\<close> and \<open>cleanse\<close>.\<close>

definition re_literal :: "string \<Rightarrow> string \<Rightarrow> nat option" where
  "re_literal p s = (case ci_prefix p s of Some r \<Rightarrow> Some (length p) | None \<Rightarrow> None)"

text \<open>\<open>/  +/\<close>: two or more spaces.\<close>

definition re_spaces :: "string \<Rightarrow> nat option" where
  "re_spaces s = (let run = takeWhile (\<lambda>c. c = CHR '' '') s
                  in if 2 \<le> length run then Some (length run) else None)"

text \<open>
  \<open>/\s*\n\s*/\<close>: a run of white space that holds a line feed. Both stars are greedy, so
  a match that starts at the head of a run takes the whole run.
\<close>

definition re_newline :: "string \<Rightarrow> nat option" where
  "re_newline s = (let run = takeWhile is_space s
                   in if CHR 0x0A \<in> set run then Some (length run) else None)"

text \<open>\<open>/ ([.,!?;:])/\<close>: a space before a punctuation mark; the replacement is the mark.\<close>

definition re_space_punct :: "string \<Rightarrow> nat option" where
  "re_space_punct s =
     (case s of
        c # p # rest \<Rightarrow> if c = CHR '' '' \<and> p \<in> set ''.,!?;:'' then Some 2 else None
      | _ \<Rightarrow> None)"

text \<open>
  \<open>/<\/?(speak|break|phoneme|audio|say-as|s\b|w\b)[^>]*>/\<close>. A name alternative gives the
  rest of the string after the name; \<open>s\b\<close> and \<open>w\b\<close> need a word boundary after the
  letter. The alternatives are tried in order, and one counts only if \<open>[^>]*>\<close> matches
  after it, which is the case when a \<open>>\<close> follows; the match ends at the first one.
\<close>

definition letter_boundary :: "string \<Rightarrow> string \<Rightarrow> string option" where
  "letter_boundary p s =
     (case ci_prefix p s of
        Some r \<Rightarrow> (case r of [] \<Rightarrow> Some r | c # cs \<Rightarrow> if is_word c then None else Some r)
      | None \<Rightarrow> None)"

definition tag_names :: "(string \<Rightarrow> string option) list" where
  "tag_names = [ci_prefix ''speak'', ci_prefix ''break'', ci_prefix ''phoneme'',
                ci_prefix ''audio'', ci_prefix ''say-as'',
                letter_boundary ''s'', letter_boundary ''w'']"

fun first_match :: "(string \<Rightarrow> string option) list \<Rightarrow> string \<Rightarrow> string option" where
  "first_match [] s = None"
| "first_match (alt # alts) s =
     (case alt s of
        Some r \<Rightarrow> if CHR ''>'' \<in> set r then Some (tl (dropWhile (\<lambda>c. c \<noteq> CHR ''>'') r))
                  else first_match alts s
      | None \<Rightarrow> first_match alts s)"

definition re_tag :: "string \<Rightarrow> nat option" where
  "re_tag s =
     (case s of
        [] \<Rightarrow> None
      | c # cs \<Rightarrow>
          if c \<noteq> CHR ''<'' then None
          else (case (case cs of
                        [] \<Rightarrow> None
                      | d # ds \<Rightarrow> if d = CHR ''/'' then first_match tag_names ds else None) of
                  Some r \<Rightarrow> Some (length s - length r)
                | None \<Rightarrow> (case first_match tag_names cs of
                              Some r \<Rightarrow> Some (length s - length r)
                            | None \<Rightarrow> None)))"

definition a_space :: "string \<Rightarrow> string" where
  "a_space m = '' ''"

definition strip_speak :: "string \<Rightarrow> string" where
  "strip_speak s =
     trim (replace_all (re_literal ''</speak>'') a_space
             (replace_all (re_literal ''<speak>'') a_space s))"

text \<open>
  \<open>SSML.fromStr(str, current_ssml)\<close>; \<open>None\<close> is an absent (or otherwise falsy) second
  argument.
\<close>

definition fromStr :: "string \<Rightarrow> string option \<Rightarrow> string" where
  "fromStr str current_ssml =
     (let str' = strip_speak str;
          cur = strip_speak (case current_ssml of None \<Rightarrow> [] | Some c \<Rightarrow> c);
          ssml_str = ''<speak>'' @ cur @ (if cur = [] then [] else '' '') @ str' @ ''</speak>''
      in replace_first re_spaces a_space ssml_str)"

definition cleanse :: "string \<Rightarrow> string" where
  "cleanse str =
     trim (replace_all re_space_punct (drop 1)
            (replace_all re_spaces a_space
              (replace_all re_newline (\<lambda>m. [CHR 0x0A])
                (replace_all re_tag a_space str))))"

section \<open>Response (src/src/Response.ts) and the state of one request\<close>

record speech =
  speech_type :: string
  ssml :: string

datatype directive = AudioPlayer_ClearQueue val | AudioPlayer_Play val val | AudioPlayer_Stop

text \<open>
  The response document \<open>response.response\<close>. The members of its nested \<open>response\<close>
  object are fields of the same record; \<open>None\<close> is a member that has not been set.
  \<open>reprompt\<close> is the \<open>outputSpeech\<close> of the \<open>reprompt\<close> member.
\<close>

record response_doc =
  version :: string
  sessionAttributes :: "val option"
  outputSpeech :: "speech option"
  reprompt :: "speech option"
  card :: "val option"
  directives :: "directive list"
  shouldEndSession :: bool

datatype log_entry = LogError string | LogWarn string | LogTrace string

text \<open>
  The outer promise is resolved with the response document (the object itself, whose
  content is the field \<open>response\<close> of the state) or rejected with a message or with a
  thrown value.
\<close>

datatype settlement = Resolved | Rejected string | RejectedWith exc

text \<open>
  What a handler returns: a promise-like object (truthy, with a truthy \<open>then\<close>), the
  literal \<open>false\<close>, or anything else.
\<close>

datatype ret = RetPromise | RetFalse | RetOther

text \<open>
  What happened during a request, in order: the invocations of the hooks and of a
  handler, the return of the handler, and the calls of \<open>resolve\<close> and \<open>reject\<close> of the
  outer promise. A hook is recorded with the error or exception it was given.
\<close>

datatype event =
    PreHook
  | HandlerCall
  | HandlerReturned ret
  | ErrorHook exc
  | PostHook "exc option"
  | Settle settlement

text \<open>
  Everything one call of \<open>Application.request\<close> can read or write: the store, the
  \<open>Session\<close> object that the \<open>Request\<close> and the \<open>Response\<close> share, the fields of the
  \<open>Response\<close>, the console, the two latches of the closure (\<open>callbackHandlerCalled\<close>,
  \<open>postExecuted\<close>), the state of the outer promise, and the record of events.
\<close>

record state =
  heap :: heap
  session :: session
  resolved :: bool
  response :: response_doc
  console :: "log_entry list"
  callbackHandlerCalled :: bool
  postExecuted :: bool
  outer :: "settlement option"
  events :: "event list"

definition new_response_doc :: response_doc where
  "new_response_doc = \<lparr>version = ''1.0'', sessionAttributes = None, outputSpeech = None,
     reprompt = None, card = None, directives = [], shouldEndSession = True\<rparr>"

definition log :: "log_entry \<Rightarrow> state \<Rightarrow> state" where
  "log e st = st\<lparr>console := console st @ [e]\<rparr>"

definition push_directive :: "directive \<Rightarrow> state \<Rightarrow> state" where
  "push_directive d st =
     st\<lparr>response := (response st)\<lparr>directives := directives (response st) @ [d]\<rparr>\<rparr>"

definition Response_audioPlayerClearQueue :: "val \<Rightarrow> state \<Rightarrow> state" where
  "Response_audioPlayerClearQueue clearBehavior st =
     push_directive (AudioPlayer_ClearQueue
       (if truthy clearBehavior then clearBehavior else VStr ''CLEAR_ALL'')) st"

definition Response_audioPlayerPlay :: "val \<Rightarrow> val \<Rightarrow> state \<Rightarrow> state" where
  "Response_audioPlayerPlay playBehavior audioItem st =
     push_directive (AudioPlayer_Play playBehavior audioItem) st"

definition Response_audioPlayerPlayStream :: "val \<Rightarrow> val \<Rightarrow> state \<Rightarrow> state" where
  "Response_audioPlayerPlayStream playBehavior stream st =
     Response_audioPlayerPlay playBehavior (VRef (length (heap st)))
       (st\<lparr>heap := heap st @ [Obj [(''stream'', stream)]]\<rparr>)"

definition Response_audioPlayerStop :: "state \<Rightarrow> state" where
  "Response_audioPlayerStop st = push_directive AudioPlayer_Stop st"

text \<open>
  \<open>k in v\<close>: \<open>Inl\<close> is the \<open>TypeError\<close> of the operator on a value that is not an object.
  The keys asked for here are not indices, so an array has none of them, and they are
  no members that a function has of its own.
\<close>

definition in_operator :: "heap \<Rightarrow> string \<Rightarrow> val \<Rightarrow> exc + bool" where
  "in_operator h k v =
     (case v of
        VRef a \<Rightarrow> Inr (has_prop (fields_at h a) k)
      | VProto \<Rightarrow> Inr (has_prop [] k)
      | VBuiltin f \<Rightarrow> Inr (has_prop [] k)
      | _ \<Rightarrow> Inl (EErr (''Cannot use the in operator to search for '' @ k)))"

text \<open>\<open>v[k]\<close> where \<open>v\<close> may be \<open>null\<close> or \<open>undefined\<close>, which throws.\<close>

definition get_member :: "heap \<Rightarrow> val \<Rightarrow> string \<Rightarrow> exc + val" where
  "get_member h v k =
     (case v of
        VUndef \<Rightarrow> Inl (cannot_read k)
      | VNull \<Rightarrow> Inl (EErr (''Cannot read property '' @ [CHR 0x27] @ k @ [CHR 0x27] @ '' of null''))
      | _ \<Rightarrow> Inr (index_val h v k))"

text \<open>
  The \<open>every\<close> over the required attributes: it stops at the first one that is missing,
  after logging it.
\<close>

fun check_required :: "string list \<Rightarrow> nat \<Rightarrow> state \<Rightarrow> bool \<times> state" where
  "check_required [] a st = (True, st)"
| "check_required (idx # rest) a st =
     (if has_prop (fields_at (heap st) a) idx then check_required rest a st
      else (False, log (LogError (''Card object is missing required attr '' @ [CHR 0x22] @ idx @ [CHR 0x22])) st))"

text \<open>
  The \<open>forEach\<close> over the attributes to cleanse: \<open>card[idx] = SSML.cleanse(card[idx])\<close>.
  A value that is not a string has no usable \<open>replace\<close> method.
\<close>

fun cleanse_attrs :: "string list \<Rightarrow> nat \<Rightarrow> state \<Rightarrow> exc + state" where
  "cleanse_attrs [] a st = Inr st"
| "cleanse_attrs (idx # rest) a st =
     (case lookup_prop (fields_at (heap st) a) idx of
        VStr s \<Rightarrow>
          cleanse_attrs rest a
            (st\<lparr>heap := (heap st)[a := Obj (AList.update idx (VStr (cleanse s))
                                              (fields_at (heap st) a))]\<rparr>)
      | VUndef \<Rightarrow> Inl (cannot_read ''replace'')
      | VNull \<Rightarrow> Inl (EErr (''Cannot read property '' @ [CHR 0x27] @ ''replace'' @ [CHR 0x27] @ '' of null''))
      | _ \<Rightarrow> Inl (EErr ''str.replace is not a function''))"

definition set_card :: "val \<Rightarrow> state \<Rightarrow> state" where
  "set_card c st = st\<lparr>response := (response st)\<lparr>card := Some c\<rparr>\<rparr>"

text \<open>
  The test on the image of a \<open>Standard\<close> card:
  \<open>('image' in card) && (!('smallImageUrl' in card['image']) && !('largeImageUrl' in card['image']))\<close>.
\<close>

definition card_image_invalid :: "heap \<Rightarrow> nat \<Rightarrow> exc + bool" where
  "card_image_invalid h a =
     (if has_prop (fields_at h a) ''image'' then
        (case in_operator h ''smallImageUrl'' (lookup_prop (fields_at h a) ''image'') of
           Inl e \<Rightarrow> Inl e
         | Inr True \<Rightarrow> Inr False
         | Inr False \<Rightarrow>
             (case in_operator h ''largeImageUrl'' (lookup_prop (fields_at h a) ''image'') of
                Inl e \<Rightarrow> Inl e
              | Inr b \<Rightarrow> Inr (\<not> b)))
      else Inr False)"

text \<open>The part of \<open>card\<close> after the \<open>switch\<close>, for a card that is an object.\<close>

definition card_finish :: "string list \<Rightarrow> string list \<Rightarrow> nat \<Rightarrow> state \<Rightarrow> exc + state" where
  "card_finish requiredAttrs cleanseAttrs a st =
     (case check_required requiredAttrs a st of
        (False, st') \<Rightarrow> Inr st'
      | (True, st') \<Rightarrow> on_result (set_card (VRef a)) (cleanse_attrs cleanseAttrs a st'))"

text \<open>
  \<open>card\<close>, called with the list of its arguments. With exactly two arguments they are
  the title and the content of a \<open>Simple\<close> card, which is a new object. A card that is
  not an object has no \<open>type\<close>, so it takes the \<open>default\<close> branch, where nothing is
  required and nothing is cleansed.
\<close>

definition Response_card :: "val list \<Rightarrow> state \<Rightarrow> exc + state" where
  "Response_card args st0 =
     (let (card, st) =
            (if length args = 2
             then (VRef (length (heap st0)),
                   st0\<lparr>heap := heap st0 @ [Obj [(''type'', VStr ''Simple''),
                                                (''title'', args ! 0), (''content'', args ! 1)]]\<rparr>)
             else (case args of [] \<Rightarrow> VUndef | c # cs \<Rightarrow> c, st0))
      in case get_member (heap st) card ''type'' of
           Inl e \<Rightarrow> Inl e
         | Inr ty \<Rightarrow>
             (case card of
                VRef a \<Rightarrow>
                  (if ty = VStr ''Simple'' then card_finish [''content''] [''content''] a st
                   else if ty = VStr ''Standard'' then
                     (case card_image_invalid (heap st) a of
                        Inl e \<Rightarrow> Inl e
                      | Inr True \<Rightarrow>
                          Inr (log (LogError ''If card.image is defined, must specify at least smallImageUrl or largeImageUrl'') st)
                      | Inr False \<Rightarrow> card_finish [''text''] [''text''] a st)
                   else card_finish [] [] a st)
              | _ \<Rightarrow> Inr (set_card card st)))"

definition ssml_speech :: "string \<Rightarrow> speech" where
  "ssml_speech s = \<lparr>speech_type = ''SSML'', ssml = s\<rparr>"

definition Response_clear :: "state \<Rightarrow> state" where
  "Response_clear st =
     st\<lparr>response := (response st)\<lparr>outputSpeech := Some (ssml_speech (fromStr [] None))\<rparr>\<rparr>"

definition Response_linkAccount :: "state \<Rightarrow> state" where
  "Response_linkAccount st =
     set_card (VRef (length (heap st)))
       (st\<lparr>heap := heap st @ [Obj [(''type'', VStr ''LinkAccount'')]]\<rparr>)"

definition Response_setSessionAttributes :: "val \<Rightarrow> state \<Rightarrow> state" where
  "Response_setSessionAttributes attrs st =
     st\<lparr>response := (response st)\<lparr>sessionAttributes := Some attrs\<rparr>\<rparr>"

definition Response_prepare :: "state \<Rightarrow> exc + state" where
  "Response_prepare st =
     (case Session_getAttributes (session st) (heap st) of
        Inl e \<Rightarrow> Inl e
      | Inr (v, h') \<Rightarrow> Inr (Response_setSessionAttributes v (st\<lparr>heap := h'\<rparr>)))"

text \<open>
  \<open>reprompt\<close>: when a reprompt is already there, the source passes the \<open>text\<close> member of
  its output speech, which no code sets, as the current SSML.
\<close>

definition Response_reprompt :: "string \<Rightarrow> state \<Rightarrow> state" where
  "Response_reprompt str st =
     (case reprompt (response st) of
        None \<Rightarrow>
          st\<lparr>response := (response st)\<lparr>reprompt := Some (ssml_speech (fromStr str None))\<rparr>\<rparr>
      | Some sp \<Rightarrow>
          st\<lparr>response := (response st)\<lparr>reprompt := Some (sp\<lparr>ssml := fromStr str None\<rparr>)\<rparr>\<rparr>)"

definition Response_say :: "string \<Rightarrow> state \<Rightarrow> state" where
  "Response_say str st =
     (case outputSpeech (response st) of
        None \<Rightarrow>
          st\<lparr>response := (response st)\<lparr>outputSpeech := Some (ssml_speech (fromStr str None))\<rparr>\<rparr>
      | Some sp \<Rightarrow>
          st\<lparr>response := (response st)
               \<lparr>outputSpeech := Some (sp\<lparr>ssml := fromStr str (Some (ssml sp))\<rparr>)\<rparr>\<rparr>)"

definition Response_shouldEndSession :: "bool \<Rightarrow> string option \<Rightarrow> state \<Rightarrow> state" where
  "Response_shouldEndSession end_flag reprompt_text st =
     (let st' = st\<lparr>response := (response st)\<lparr>shouldEndSession := end_flag\<rparr>\<rparr>
      in case reprompt_text of
           None \<Rightarrow> st'
         | Some r \<Rightarrow> if r = [] then st' else Response_reprompt r st')"

section \<open>Request (src/src/Request.ts)\<close>

text \<open>The request body, as far as the library reads it.\<close>

record intent_payload =
  intent_name :: "string option"

record request_payload =
  req_type :: "string option"
  req_intent :: "intent_payload option"

record system_payload =
  sys_user_userId :: "val option"
  sys_application_applicationId :: "val option"

record context_payload =
  System :: "system_payload option"

record body =
  b_session :: "session_payload option"
  b_context :: "context_payload option"
  b_request :: "request_payload option"

text \<open>
  A \<open>Request\<close> object. Its \<open>sessionObject\<close> is the field \<open>session\<close> of the state; the
  fields copied from the session at construction are kept as the constructor leaves them.
  For \<open>userId\<close> and \<open>applicationId\<close>, \<open>None\<close> is a field the constructor did not set.
\<close>

record request =
  data :: body
  userId_field :: "val option"
  applicationId_field :: "val option"
  isSessionNew :: bool
  request_sessionAttributes :: nat
  request_sessionDetails :: "details option"
  request_sessionId :: val

definition Request :: "body \<Rightarrow> heap \<Rightarrow> exc + (request \<times> session \<times> heap)" where
  "Request request_json h =
     (case Session (b_session request_json) h of
        Inl e \<Rightarrow> Inl e
      | Inr (s, h') \<Rightarrow>
          (case (case b_context request_json of
                   None \<Rightarrow> Inr (None, None)
                 | Some c \<Rightarrow>
                     (case System c of
                        None \<Rightarrow> Inl (cannot_read ''user'')
                      | Some sy \<Rightarrow>
                          (case sys_user_userId sy of
                             None \<Rightarrow> Inl (cannot_read ''userId'')
                           | Some uid \<Rightarrow>
                               (case sys_application_applicationId sy of
                                  None \<Rightarrow> Inl (cannot_read ''applicationId'')
                                | Some aid \<Rightarrow> Inr (Some uid, Some aid))))) of
             Inl e \<Rightarrow> Inl e
           | Inr (uid, aid) \<Rightarrow>
               (case (if Session_isAvailable s = Some True then Session_isNew s else Inr False) of
                  Inl e \<Rightarrow> Inl e
                | Inr isnew \<Rightarrow>
                    Inr (\<lparr>data = request_json, userId_field = uid, applicationId_field = aid,
                          isSessionNew = isnew, request_sessionAttributes = attributes s,
                          request_sessionDetails = details s, request_sessionId = sessionId s\<rparr>,
                         s, h'))))"

text \<open>
  \<open>type()\<close>: the request type, or \<open>undefined\<close> after an error on the console when the
  request or a non-empty type is missing. Every call logs again.
\<close>

definition Request_type :: "request \<Rightarrow> state \<Rightarrow> string option \<times> state" where
  "Request_type r st =
     (case b_request (data r) of
        None \<Rightarrow> (None, log (LogError ''missing request type:'') st)
      | Some q \<Rightarrow>
          (case req_type q of
             None \<Rightarrow> (None, log (LogError ''missing request type:'') st)
           | Some t \<Rightarrow> if t = [] then (None, log (LogError ''missing request type:'') st)
                       else (Some t, st)))"

definition Request_isAudioPlayer :: "request \<Rightarrow> state \<Rightarrow> bool \<times> state" where
  "Request_isAudioPlayer r st =
     (case Request_type r st of
        (None, st') \<Rightarrow> (False, st')
      | (Some t, st') \<Rightarrow> (take 12 t = ''AudioPlayer.'', st'))"

section \<open>Application (src/src/Application.ts)\<close>

subsection \<open>Handlers and hooks\<close>

text \<open>
  The functions an application registers are arbitrary code. What the engine can observe
  of them is modelled as data: the calls they make on the methods of the response and of
  the session, in order, a thrown value, and \<open>try\<close> blocks, in which the code catches
  what one of its calls throws and goes on. A handler also holds the \<open>done\<close> callback,
  returns a value, and may go on acting in later turns of the event loop. User code that
  assigns to the fields of the response directly (\<open>response.resolved = false\<close>) or replaces
  its methods is not modelled.
\<close>

datatype act =
    Say string
  | Reprompt string
  | Clear
  | Card "val list"
  | LinkAccount
  | ShouldEndSession bool "string option"
  | AudioPlayerClearQueue val
  | AudioPlayerPlay val val
  | AudioPlayerPlayStream val val
  | AudioPlayerStop
  | SessionGet string
  | SessionSet string val
  | SessionClear val
  | Send "exc option"
  | Fail string "exc option"
  | Throw exc

text \<open>
  The code of a hook: calls, and \<open>try { ... } catch (e) { ... }\<close> with the two blocks.
  The code of a handler has the call of \<open>done\<close> besides.
\<close>

datatype stmt = Call act | Try "stmt list" "stmt list"

datatype hact = Do act | Done "exc option" | TryCatch "hact list" "hact list"

text \<open>
  A later turn of the event loop: the handler acts again, or the promise it returned is
  fulfilled, or rejected with a reason.
\<close>

datatype tick = Tick "hact list" | Fulfil | RejectP exc

record handler =
  h_sync :: "hact list"
  h_ret :: ret
  h_async :: "tick list"

text \<open>
  The configuration of an \<open>Application\<close>. A hook that is \<open>None\<close> is not a function
  (\<open>error\<close> is \<open>null\<close> by default; \<open>pre\<close> and \<open>post\<close> are empty functions by default). An
  entry of a handler table may hold something that is not a function. What the handler
  tables inherit from \<open>Object.prototype\<close> has no member \<open>function\<close>, so a name found only
  there counts as not registered, as the tables of the model have it.
\<close>

record app =
  error_hook :: "stmt list option"
  messages :: "(string \<times> string) list"
  post_hook :: "stmt list option"
  pre_hook :: "stmt list option"
  audioPlayerEventHandlers :: "(string \<times> handler option) list"
  intents :: "(string \<times> handler option) list"
  launchFunc :: "handler option"
  sessionEndedFunc :: "handler option"

definition default_messages :: "(string \<times> string) list" where
  "default_messages =
     [(''NO_INTENT_FOUND'', ''Sorry, the application didn't know what to do with that intent''),
      (''NO_AUDIO_PLAYER_EVENT_HANDLER_FOUND'', ''Sorry, the application didn't know what to do with that AudioPlayer event''),
      (''NO_LAUNCH_FUNCTION'', ''Try telling the application what to do instead of opening it''),
      (''INVALID_REQUEST_TYPE'', ''Error: not a valid request''),
      (''NO_SESSION'', ''This request doesn't support session attributes''),
      (''GENERIC_ERROR'', ''Sorry, the application encountered an error'')]"

text \<open>A new \<open>Application\<close>, before anything is registered.\<close>

definition new_app :: app where
  "new_app = \<lparr>error_hook = None, messages = default_messages, post_hook = Some [],
     pre_hook = Some [], audioPlayerEventHandlers = [], intents = [],
     launchFunc = None, sessionEndedFunc = None\<rparr>"

text \<open>Registration: each call stores the function under its name, or in its slot.\<close>

definition Application_audioPlayer :: "string \<Rightarrow> handler \<Rightarrow> app \<Rightarrow> app" where
  "Application_audioPlayer eventName func a =
     a\<lparr>audioPlayerEventHandlers := AList.update eventName (Some func) (audioPlayerEventHandlers a)\<rparr>"

definition Application_intent :: "string \<Rightarrow> handler option \<Rightarrow> app \<Rightarrow> app" where
  "Application_intent intentName func a =
     a\<lparr>intents := AList.update intentName func (intents a)\<rparr>"

definition Application_launch :: "handler \<Rightarrow> app \<Rightarrow> app" where
  "Application_launch func a = a\<lparr>launchFunc := Some func\<rparr>"

definition Application_sessionEnded :: "handler \<Rightarrow> app \<Rightarrow> app" where
  "Application_sessionEnded func a = a\<lparr>sessionEndedFunc := Some func\<rparr>"

subsection \<open>The outer promise\<close>

text \<open>
  \<open>resolve\<close> and \<open>reject\<close> of the promise: the first settlement stays. Every call is
  recorded.
\<close>

definition settle :: "settlement \<Rightarrow> state \<Rightarrow> state" where
  "settle x st =
     st\<lparr>outer := (case outer st of None \<Rightarrow> Some x | Some y \<Rightarrow> Some y),
        events := events st @ [Settle x]\<rparr>"

text \<open>A value thrown out of the executor rejects the promise, when it is still pending.\<close>

definition executor_throw :: "exc \<Rightarrow> state \<Rightarrow> state" where
  "executor_throw e st =
     st\<lparr>outer := (case outer st of None \<Rightarrow> Some (RejectedWith e) | Some y \<Rightarrow> Some y)\<rparr>"

subsection \<open>\<open>response.send\<close> and \<open>response.fail\<close>\<close>

text \<open>
  A step of the engine ends normally or by a thrown value, and in both cases leaves a
  state behind.
\<close>

type_synonym step = "exc option \<times> state"

text \<open>One call of user code.\<close>

definition run_act :: "(exc option \<Rightarrow> state \<Rightarrow> step) \<Rightarrow> (string \<Rightarrow> exc option \<Rightarrow> state \<Rightarrow> step)
    \<Rightarrow> act \<Rightarrow> state \<Rightarrow> step" where
  "run_act send fail a st =
     (case a of
        Say str \<Rightarrow> (None, Response_say str st)
      | Reprompt str \<Rightarrow> (None, Response_reprompt str st)
      | Clear \<Rightarrow> (None, Response_clear st)
      | Card args \<Rightarrow>
          (case Response_card args st of Inl e \<Rightarrow> (Some e, st) | Inr st' \<Rightarrow> (None, st'))
      | LinkAccount \<Rightarrow> (None, Response_linkAccount st)
      | ShouldEndSession end_flag reprompt_text \<Rightarrow>
          (None, Response_shouldEndSession end_flag reprompt_text st)
      | AudioPlayerClearQueue clearBehavior \<Rightarrow>
          (None, Response_audioPlayerClearQueue clearBehavior st)
      | AudioPlayerPlay playBehavior audioItem \<Rightarrow>
          (None, Response_audioPlayerPlay playBehavior audioItem st)
      | AudioPlayerPlayStream playBehavior stream \<Rightarrow>
          (None, Response_audioPlayerPlayStream playBehavior stream st)
      | AudioPlayerStop \<Rightarrow> (None, Response_audioPlayerStop st)
      | SessionGet k \<Rightarrow>
          (case Session_get (session st) k (heap st) of
             Inl e \<Rightarrow> (Some e, st)
           | Inr (v, h') \<Rightarrow> (None, st\<lparr>heap := h'\<rparr>))
      | SessionSet k v \<Rightarrow>
          (case Session_set (session st) k v (heap st) of
             Inl e \<Rightarrow> (Some e, st)
           | Inr h' \<Rightarrow> (None, st\<lparr>heap := h'\<rparr>))
      | SessionClear k \<Rightarrow>
          (case Session_clear (session st) k (heap st) of
             Inl e \<Rightarrow> (Some e, st)
           | Inr (s', h') \<Rightarrow> (None, st\<lparr>session := s', heap := h'\<rparr>))
      | Send exception \<Rightarrow> send exception st
      | Fail msg exception \<Rightarrow> fail msg exception st
      | Throw e \<Rightarrow> (Some e, st))"

text \<open>
  The code of a hook: the statements one after the other, up to the first that throws.
  What a \<open>try\<close> block throws is caught, and the \<open>catch\<close> block runs in the state the
  \<open>try\<close> block left.
\<close>

fun run_stmt :: "(exc option \<Rightarrow> state \<Rightarrow> step) \<Rightarrow> (string \<Rightarrow> exc option \<Rightarrow> state \<Rightarrow> step)
    \<Rightarrow> stmt \<Rightarrow> state \<Rightarrow> step"
  and run_stmts :: "(exc option \<Rightarrow> state \<Rightarrow> step) \<Rightarrow> (string \<Rightarrow> exc option \<Rightarrow> state \<Rightarrow> step)
    \<Rightarrow> stmt list \<Rightarrow> state \<Rightarrow> step" where
  "run_stmt send fail (Call c) st = run_act send fail c st"
| "run_stmt send fail (Try block handler) st =
     (case run_stmts send fail block st of
        (Some e, st') \<Rightarrow> run_stmts send fail handler st'
      | (None, st') \<Rightarrow> (None, st'))"
| "run_stmts send fail [] st = (None, st)"
| "run_stmts send fail (x # xs) st =
     (case run_stmt send fail x st of
        (Some e, st') \<Rightarrow> (Some e, st')
      | (None, st') \<Rightarrow> run_stmts send fail xs st')"

text \<open>
  The body of \<open>response.send\<close> and of \<open>response.fail\<close>, which differ in the last call only
  (\<open>resolve(response.response)\<close> or \<open>reject(msg)\<close>). The first argument is what
  \<open>this.post(request, response, requestType, exception)\<close> does.
\<close>

definition complete :: "(exc option \<Rightarrow> state \<Rightarrow> step) \<Rightarrow> app \<Rightarrow> settlement \<Rightarrow> exc option
    \<Rightarrow> state \<Rightarrow> step" where
  "complete call_post a x exception st =
     (case Response_prepare st of
        Inl e \<Rightarrow> (Some e, st)
      | Inr st1 \<Rightarrow>
          (case (if post_hook a \<noteq> None \<and> \<not> postExecuted st1
                 then call_post exception (st1\<lparr>postExecuted := True\<rparr>)
                 else (None, st1)) of
             (Some e, st2) \<Rightarrow> (Some e, st2)
           | (None, st2) \<Rightarrow>
               (None, if \<not> resolved st2 then settle x (st2\<lparr>resolved := True\<rparr>) else st2)))"

text \<open>
  The post hook runs with \<open>postExecuted\<close> already set, and nothing resets that latch. So
  a \<open>send\<close> or \<open>fail\<close> that the post hook itself calls never reaches the call of the post
  hook, and is given none.
\<close>

definition no_post :: "exc option \<Rightarrow> state \<Rightarrow> step" where
  "no_post exception st = (None, st)"

definition call_post :: "app \<Rightarrow> exc option \<Rightarrow> state \<Rightarrow> step" where
  "call_post a exception st =
     run_stmts (complete no_post a Resolved) (\<lambda>msg. complete no_post a (Rejected msg))
       (case post_hook a of None \<Rightarrow> [] | Some acts \<Rightarrow> acts)
       (st\<lparr>events := events st @ [PostHook exception]\<rparr>)"

definition send :: "app \<Rightarrow> exc option \<Rightarrow> state \<Rightarrow> step" where
  "send a exception st = complete (call_post a) a Resolved exception st"

definition fail :: "app \<Rightarrow> string \<Rightarrow> exc option \<Rightarrow> state \<Rightarrow> step" where
  "fail a msg exception st = complete (call_post a) a (Rejected msg) exception st"

subsection \<open>\<open>handleError\<close> and \<open>callbackHandler\<close>\<close>

definition exc_truthy :: "exc \<Rightarrow> bool" where
  "exc_truthy e = (case e of EStr s \<Rightarrow> s \<noteq> [] | EErr m \<Rightarrow> True | EUndefined \<Rightarrow> False
     | ENull \<Rightarrow> False | EOther b s \<Rightarrow> b)"

text \<open>\<open>e.message\<close>: reading it from \<open>undefined\<close> or \<open>null\<close> throws.\<close>

definition exc_message :: "exc \<Rightarrow> exc + string option" where
  "exc_message e = (case e of
       EStr s \<Rightarrow> Inr None
     | EErr m \<Rightarrow> Inr (Some m)
     | EUndefined \<Rightarrow> Inl (cannot_read ''message'')
     | ENull \<Rightarrow> Inl (EErr (''Cannot read property '' @ [CHR 0x27] @ ''message'' @ [CHR 0x27] @ '' of null''))
     | EOther b s \<Rightarrow> Inr None)"

text \<open>
  \<open>typeof e == "string" && this.messages[e]\<close>: the table has a non-empty text for the
  string \<open>e\<close>, or \<open>e\<close> names what the table inherits from \<open>Object.prototype\<close> (a method,
  or under \<open>__proto__\<close> that object itself, which are truthy too), or the test fails.
\<close>

datatype table_entry = NoEntry | Text string | Inherited string

definition message_for :: "app \<Rightarrow> exc \<Rightarrow> table_entry" where
  "message_for a e =
     (case e of
        EStr s \<Rightarrow> (case map_of (messages a) s of
                     None \<Rightarrow> if inherited s \<noteq> VUndef then Inherited s else NoEntry
                   | Some m \<Rightarrow> if m = [] then NoEntry else Text m)
      | _ \<Rightarrow> NoEntry)"

text \<open>
  The first statement of \<open>handleError\<close>: the error hook, or else the message of the
  table. With an inherited member in place of a message, \<open>response.say\<close> throws
  (\<open>SSML.fromStr\<close> calls \<open>replace\<close> on it) and \<open>response.fail\<close> rejects with the member.
\<close>

definition report_error :: "app \<Rightarrow> request \<Rightarrow> exc \<Rightarrow> state \<Rightarrow> step" where
  "report_error a r e st =
     (case error_hook a of
        Some acts \<Rightarrow>
          run_stmts (send a) (fail a) acts (st\<lparr>events := events st @ [ErrorHook e]\<rparr>)
      | None \<Rightarrow>
          (case message_for a e of
             Text m \<Rightarrow>
               (case Request_isAudioPlayer r st of
                  (False, st') \<Rightarrow> send a (Some e) (Response_say m st')
                | (True, st') \<Rightarrow> fail a m None st')
           | Inherited f \<Rightarrow>
               (case Request_isAudioPlayer r st of
                  (False, st') \<Rightarrow> (Some (EErr ''str.replace is not a function''), st')
                | (True, st') \<Rightarrow>
                    complete (call_post a) a (RejectedWith (EOther True f)) None st')
           | NoEntry \<Rightarrow> (None, st)))"

text \<open>\<open>handleError\<close>: after that, a response still unresolved is failed.\<close>

definition handleError :: "app \<Rightarrow> request \<Rightarrow> exc \<Rightarrow> state \<Rightarrow> step" where
  "handleError a r e st =
     (case report_error a r e st of
        (Some x, st1) \<Rightarrow> (Some x, st1)
      | (None, st1) \<Rightarrow>
          (if \<not> resolved st1 then
             (case exc_message e of
                Inl x \<Rightarrow> (Some x, st1)
              | Inr (Some m) \<Rightarrow>
                  if m \<noteq> [] then fail a (''Unhandled exception: '' @ m @ ''.'') (Some e) st1
                  else fail a ''Unhandled exception.'' (Some e) st1
              | Inr None \<Rightarrow> fail a ''Unhandled exception.'' (Some e) st1)
           else (None, st1)))"

definition callbackHandler :: "app \<Rightarrow> request \<Rightarrow> exc option \<Rightarrow> state \<Rightarrow> step" where
  "callbackHandler a r e st =
     (if callbackHandlerCalled st
      then (None, log (LogWarn ''Response has already been sent'') st)
      else (let st1 = st\<lparr>callbackHandlerCalled := True\<rparr>
            in case e of
                 None \<Rightarrow> send a None st1
               | Some x \<Rightarrow> if exc_truthy x then handleError a r x st1 else send a None st1))"

subsection \<open>Running a handler\<close>

text \<open>
  The code of a handler, in the same way. A handler that catches what \<open>done\<close>,
  \<open>response.send\<close> or \<open>response.fail\<close> throws goes on after it, and may return normally.
\<close>

fun run_hact :: "app \<Rightarrow> request \<Rightarrow> hact \<Rightarrow> state \<Rightarrow> step"
  and run_hacts :: "app \<Rightarrow> request \<Rightarrow> hact list \<Rightarrow> state \<Rightarrow> step" where
  "run_hact a r (Do c) st = run_act (send a) (fail a) c st"
| "run_hact a r (Done e) st = callbackHandler a r e st"
| "run_hact a r (TryCatch block handler) st =
     (case run_hacts a r block st of
        (Some e, st') \<Rightarrow> run_hacts a r handler st'
      | (None, st') \<Rightarrow> (None, st'))"
| "run_hacts a r [] st = (None, st)"
| "run_hacts a r (x # xs) st =
     (case run_hact a r x st of
        (Some e, st') \<Rightarrow> (Some e, st')
      | (None, st') \<Rightarrow> run_hacts a r xs st')"

text \<open>
  The call of a handler and the three-way test on what it returned. \<open>watches_promise\<close>
  is the outcome of the test for a promise: \<open>result && result.then\<close> in the intent,
  launch and session-ended branches. \<open>Promise.resolve(result).asCallback(callbackHandler)\<close>
  subscribes the callback to the promise; the state remembers that, and what the handler
  will do in later turns.
\<close>

record pending =
  subscribed :: bool
  later :: "tick list"

definition trace_note :: "string \<Rightarrow> string" where
  "trace_note kind = ''NOTE: using `return false` for async '' @ kind
      @ '' requests is deprecated and will not work after the next major version''"

definition invoke :: "app \<Rightarrow> request \<Rightarrow> handler \<Rightarrow> bool \<Rightarrow> string \<Rightarrow> state
    \<Rightarrow> (exc option \<times> pending) \<times> state" where
  "invoke a r h watches_promise kind st =
     (case run_hacts a r (h_sync h) (st\<lparr>events := events st @ [HandlerCall]\<rparr>) of
        (Some e, st1) \<Rightarrow> ((Some e, \<lparr>subscribed = False, later = h_async h\<rparr>), st1)
      | (None, st1) \<Rightarrow>
          (let st2 = st1\<lparr>events := events st1 @ [HandlerReturned (h_ret h)]\<rparr>
           in if watches_promise then ((None, \<lparr>subscribed = True, later = h_async h\<rparr>), st2)
              else if h_ret h \<noteq> RetFalse then
                (case callbackHandler a r None st2 of
                   (x, st3) \<Rightarrow> ((x, \<lparr>subscribed = False, later = h_async h\<rparr>), st3))
              else ((None, \<lparr>subscribed = False, later = h_async h\<rparr>),
                    log (LogTrace (trace_note kind)) st2)))"

text \<open>
  In the AudioPlayer branch the test for a promise reads
  \<open>eventHandlerObject && eventHandlerObject.then\<close>: it looks at the entry of the handler
  table, the object \<open>{name, function}\<close> that \<open>audioPlayer()\<close> stored, and not at what the
  handler returned. That object has no \<open>then\<close>.
\<close>

definition eventHandlerObject_then :: bool where
  "eventHandlerObject_then = False"

definition no_pending :: pending where
  "no_pending = \<lparr>subscribed = False, later = []\<rparr>"

subsection \<open>\<open>Application.request\<close>\<close>

text \<open>
  The branches of the dispatch on the request type, inside the \<open>try\<close>: each gives the
  thrown value, if any, and what is left pending.
\<close>

type_synonym dispatched = "(exc option \<times> pending) \<times> state"

text \<open>
  The intent name as a key of the table \<open>this.intents\<close>: a missing name is the key
  \<open>"undefined"\<close>.
\<close>

definition intent_key :: "intent_payload \<Rightarrow> string" where
  "intent_key i = (case intent_name i of None \<Rightarrow> ''undefined'' | Some n \<Rightarrow> n)"

definition dispatch_intent :: "app \<Rightarrow> request \<Rightarrow> state \<Rightarrow> dispatched" where
  "dispatch_intent a r st =
     (case (case b_request (data r) of None \<Rightarrow> None | Some q \<Rightarrow> req_intent q) of
        None \<Rightarrow> ((Some (cannot_read ''name''), no_pending), st)
      | Some i \<Rightarrow>
          (case map_of (intents a) (intent_key i) of
             Some (Some h) \<Rightarrow> invoke a r h (h_ret h = RetPromise) ''intent'' st
           | _ \<Rightarrow> ((Some (EStr ''NO_INTENT_FOUND''), no_pending), st)))"

definition dispatch_launch :: "app \<Rightarrow> request \<Rightarrow> state \<Rightarrow> dispatched" where
  "dispatch_launch a r st =
     (case launchFunc a of
        Some h \<Rightarrow> invoke a r h (h_ret h = RetPromise) ''launch'' st
      | None \<Rightarrow> ((Some (EStr ''NO_LAUNCH_FUNCTION''), no_pending), st))"

definition dispatch_sessionEnded :: "app \<Rightarrow> request \<Rightarrow> state \<Rightarrow> dispatched" where
  "dispatch_sessionEnded a r st =
     (case sessionEndedFunc a of
        Some h \<Rightarrow> invoke a r h (h_ret h = RetPromise) ''session ended'' st
      | None \<Rightarrow> (case send a None st of (x, st') \<Rightarrow> ((x, no_pending), st')))"

definition dispatch_other :: "app \<Rightarrow> request \<Rightarrow> string option \<Rightarrow> state \<Rightarrow> dispatched" where
  "dispatch_other a r requestType st =
     (case Request_isAudioPlayer r st of
        (True, st') \<Rightarrow>
          (case map_of (audioPlayerEventHandlers a)
                  (drop 12 (case requestType of None \<Rightarrow> [] | Some t \<Rightarrow> t)) of
             Some (Some h) \<Rightarrow> invoke a r h eventHandlerObject_then ''audio player'' st'
           | _ \<Rightarrow> (case send a None st' of (x, st'') \<Rightarrow> ((x, no_pending), st'')))
      | (False, st') \<Rightarrow> ((Some (EStr ''INVALID_REQUEST_TYPE''), no_pending), st'))"

definition dispatch :: "app \<Rightarrow> request \<Rightarrow> string option \<Rightarrow> state \<Rightarrow> dispatched" where
  "dispatch a r requestType st =
     (if requestType = Some ''IntentRequest'' then dispatch_intent a r st
      else if requestType = Some ''LaunchRequest'' then dispatch_launch a r st
      else if requestType = Some ''SessionEndedRequest'' then dispatch_sessionEnded a r st
      else dispatch_other a r requestType st)"

text \<open>The state in which the executor of the promise starts.\<close>

definition initial_state :: "session \<Rightarrow> heap \<Rightarrow> state" where
  "initial_state s h =
     \<lparr>heap = h, session = s, resolved = False, response = new_response_doc, console = [],
      callbackHandlerCalled = False, postExecuted = False, outer = None, events = []\<rparr>"

text \<open>
  The state a request leaves when the \<open>Request\<close> cannot be constructed: the session
  recorded there is never used.
\<close>

definition unconstructed :: "heap \<Rightarrow> state" where
  "unconstructed h =
     initial_state \<lparr>attributes = 0, details = None, sessionId = VNull,
                    isAvailable_field = None, no_session = True\<rparr> h"

text \<open>The body of the \<open>try\<close>: the pre hook, then the dispatch unless the pre hook resolved.\<close>

definition try_block :: "app \<Rightarrow> request \<Rightarrow> string option \<Rightarrow> state \<Rightarrow> dispatched" where
  "try_block a r requestType st0 =
     (case (case pre_hook a of
              Some acts \<Rightarrow>
                run_stmts (send a) (fail a) acts (st0\<lparr>events := events st0 @ [PreHook]\<rparr>)
            | None \<Rightarrow> (None, st0)) of
        (Some e, st1) \<Rightarrow> ((Some e, no_pending), st1)
      | (None, st1) \<Rightarrow>
          if \<not> resolved st1 then dispatch a r requestType st1
          else ((None, no_pending), st1))"

text \<open>
  The executor of the promise: the synchronous part of \<open>Application.request\<close>. The
  \<open>Request\<close> and the \<open>Response\<close> are constructed outside the \<open>try\<close>; the \<open>catch\<close> hands
  what the \<open>try\<close> threw to \<open>handleError\<close>; a value thrown out of the executor rejects
  the promise.
\<close>

definition executor :: "app \<Rightarrow> body \<Rightarrow> heap \<Rightarrow> pending \<times> request option \<times> state" where
  "executor a request_json h =
     (case Request request_json h of
        Inl e \<Rightarrow> (no_pending, None, executor_throw e (unconstructed h))
      | Inr (r, s, h') \<Rightarrow>
          (case Request_type r (initial_state s h') of
             (requestType, st0) \<Rightarrow>
               (case try_block a r requestType st0 of
                  ((None, p), st2) \<Rightarrow> (p, Some r, st2)
                | ((Some e, p), st2) \<Rightarrow>
                    (case handleError a r e st2 of
                       (None, st3) \<Rightarrow> (p, Some r, st3)
                     | (Some x, st3) \<Rightarrow> (p, Some r, executor_throw x st3)))))"

text \<open>
  \<open>asCallback\<close> passes the reason of a rejection to the callback, and a falsy reason
  wrapped in an \<open>Error\<close> whose message is the reason converted to a string.
\<close>

definition callback_reason :: "exc \<Rightarrow> exc" where
  "callback_reason e =
     (if exc_truthy e then e
      else (case e of EStr s \<Rightarrow> EErr s | EUndefined \<Rightarrow> EErr ''undefined''
              | ENull \<Rightarrow> EErr ''null'' | EOther b s \<Rightarrow> EErr s | EErr m \<Rightarrow> e))"

text \<open>
  The later turns of the event loop. A value thrown in a turn ends that turn only. The
  promise a handler returned settles once; the callback runs if it was subscribed.
\<close>

fun run_ticks :: "app \<Rightarrow> request \<Rightarrow> bool \<Rightarrow> tick list \<Rightarrow> state \<Rightarrow> state" where
  "run_ticks a r sub [] st = st"
| "run_ticks a r sub (Tick xs # ts) st = run_ticks a r sub ts (snd (run_hacts a r xs st))"
| "run_ticks a r sub (Fulfil # ts) st =
     (if sub then run_ticks a r False ts (snd (callbackHandler a r None st))
      else run_ticks a r sub ts st)"
| "run_ticks a r sub (RejectP e # ts) st =
     (if sub then run_ticks a r False ts (snd (callbackHandler a r (Some (callback_reason e)) st))
      else run_ticks a r sub ts st)"

text \<open>
  One call of \<open>Application.request\<close>, followed to the end of what the handler does: the
  final state, whose field \<open>outer\<close> is the state of the promise that was returned.
\<close>

definition Application_request :: "app \<Rightarrow> body \<Rightarrow> heap \<Rightarrow> state" where
  "Application_request a request_json h =
     (case executor a request_json h of
        (p, None, st) \<Rightarrow> st
      | (p, Some r, st) \<Rightarrow> run_ticks a r (subscribed p) (later p) st)"

section \<open>Notions used to state the properties\<close>

text \<open>The references held by a value and by a cell of the store.\<close>

definition val_refs :: "val \<Rightarrow> nat set" where
  "val_refs v = (case v of VRef a \<Rightarrow> {a} | _ \<Rightarrow> {})"

definition obj_refs :: "obj \<Rightarrow> nat set" where
  "obj_refs c = (case c of Obj fs \<Rightarrow> (\<Union>p \<in> set fs. val_refs (snd p))
                         | Arr vs \<Rightarrow> (\<Union>v \<in> set vs. val_refs v))"

text \<open>
  A reference to one of the objects that all programs share: \<open>Object.prototype\<close> or one
  of its methods. A value that is such a reference is no copy of anything.
\<close>

definition shared_reference :: "val \<Rightarrow> bool" where
  "shared_reference v = (case v of VProto \<Rightarrow> True | VBuiltin f \<Rightarrow> True | _ \<Rightarrow> False)"

text \<open>The member \<open>k\<close> of a JSON document, when the document is an object that has it.\<close>

definition json_index :: "json \<Rightarrow> string \<Rightarrow> json option" where
  "json_index j k = (case j of JObj fs \<Rightarrow> map_of fs k | _ \<Rightarrow> None)"

text \<open>
  An available session whose attribute \<open>x\<close> is the object \<open>{a: 1}\<close>, as after
  \<open>set("x", {a: 1})\<close>.
\<close>

definition demo_session :: session where
  "demo_session = \<lparr>attributes = 0, details = None, sessionId = VNull,
                    isAvailable_field = Some True, no_session = False\<rparr>"

definition demo_heap :: heap where
  "demo_heap = [Obj [(''x'', VRef 1)], Obj [(''a'', VNum 1)]]"

text \<open>The calls of \<open>resolve\<close> and \<open>reject\<close>, and the invocations of the post hook, so far.\<close>

fun settles :: "event list \<Rightarrow> settlement list" where
  "settles [] = []"
| "settles (Settle x # es) = x # settles es"
| "settles (e # es) = settles es"

fun posts :: "event list \<Rightarrow> exc option list" where
  "posts [] = []"
| "posts (PostHook x # es) = x # posts es"
| "posts (e # es) = posts es"

text \<open>
  \<open>post_first seen es\<close>: in the events \<open>es\<close>, every call of \<open>resolve\<close> or \<open>reject\<close> comes
  after an invocation of the post hook (\<open>seen\<close>: one has come before \<open>es\<close>).
\<close>

fun post_first :: "bool \<Rightarrow> event list \<Rightarrow> bool" where
  "post_first seen [] = True"
| "post_first seen (PostHook x # es) = post_first True es"
| "post_first seen (Settle x # es) = (seen \<and> post_first seen es)"
| "post_first seen (e # es) = post_first seen es"

text \<open>
  The latches agree with what has happened: \<open>resolved\<close> is set once \<open>resolve\<close> or
  \<open>reject\<close> has been called, which then has happened once and has settled the promise;
  \<open>postExecuted\<close> is set exactly when the post hook has been invoked, which then has
  happened once; and the post hook, when it is a function, came first.
\<close>

definition latched :: "app \<Rightarrow> state \<Rightarrow> bool" where
  "latched a st \<longleftrightarrow>
     length (settles (events st)) \<le> 1 \<and>
     (settles (events st) \<noteq> [] \<longrightarrow> resolved st) \<and>
     (resolved st \<longrightarrow> outer st \<noteq> None) \<and>
     length (posts (events st)) \<le> 1 \<and>
     (posts (events st) \<noteq> [] \<longleftrightarrow> postExecuted st) \<and>
     (post_hook a \<noteq> None \<longrightarrow> post_first False (events st))"

text \<open>What a step of the engine may do to the latches and to the promise.\<close>

definition advances :: "app \<Rightarrow> state \<Rightarrow> state \<Rightarrow> bool" where
  "advances a st st' \<longleftrightarrow>
     (latched a st \<longrightarrow> latched a st') \<and>
     (\<exists>es. events st' = events st @ es) \<and>
     (\<forall>x. outer st = Some x \<longrightarrow> outer st' = Some x) \<and>
     (resolved st \<longrightarrow> resolved st') \<and>
     (postExecuted st \<longrightarrow> postExecuted st') \<and>
     (callbackHandlerCalled st \<longrightarrow> callbackHandlerCalled st')"

text \<open>A step that touches neither the latches, nor the promise, nor the events.\<close>

definition same_control :: "state \<Rightarrow> state \<Rightarrow> bool" where
  "same_control st st' \<longleftrightarrow>
     resolved st' = resolved st \<and> postExecuted st' = postExecuted st \<and>
     callbackHandlerCalled st' = callbackHandlerCalled st \<and>
     outer st' = outer st \<and> events st' = events st"


text \<open>
  A launch request without a session, and three applications with a launch handler: one
  that returns \<open>false\<close> and never completes, one that calls \<open>response.send()\<close> twice,
  and one whose handler is \<open>try { done() } catch (e) {}\<close> while the post hook throws.
\<close>

definition launch_body :: body where
  "launch_body = \<lparr>b_session = None, b_context = None,
     b_request = Some \<lparr>req_type = Some ''LaunchRequest'', req_intent = None\<rparr>\<rparr>"

definition app_returning_false :: app where
  "app_returning_false =
     Application_launch \<lparr>h_sync = [], h_ret = RetFalse, h_async = []\<rparr> new_app"

definition app_sending_twice :: app where
  "app_sending_twice =
     Application_launch \<lparr>h_sync = [Do (Send None), Do (Send None)], h_ret = RetOther, h_async = []\<rparr> new_app"

definition app_catching_done :: app where
  "app_catching_done =
     Application_launch \<lparr>h_sync = [TryCatch [Done None] []], h_ret = RetOther, h_async = []\<rparr>
       (new_app\<lparr>post_hook := Some [Call (Throw (EErr ''post''))]\<rparr>)"





text \<open>
  A step that only composes the response: the latches, the promise, the events and the
  session are as before, and the store has at most grown.
\<close>

definition composed :: "state \<Rightarrow> state \<Rightarrow> bool" where
  "composed st st' \<longleftrightarrow>
     same_control st st' \<and> session st' = session st \<and> (\<exists>ext. heap st' = heap st @ ext)"












text \<open>Concrete requests and applications on which the properties are exercised.\<close>

definition request_of_type :: "string \<Rightarrow> intent_payload option \<Rightarrow> body" where
  "request_of_type t i = \<lparr>b_session = None, b_context = None,
     b_request = Some \<lparr>req_type = Some t, req_intent = i\<rparr>\<rparr>"





definition body_without_user :: body where
  "body_without_user =
     \<lparr>b_session = Some \<lparr>sp_user = None, sp_attributes = None, sp_application = VUndef,
                         sp_new = VBool True, sp_sessionId = VStr ''s1''\<rparr>,
      b_context = None,
      b_request = Some \<lparr>req_type = Some ''LaunchRequest'', req_intent = None\<rparr>\<rparr>"

definition body_without_System :: body where
  "body_without_System =
     \<lparr>b_session = None, b_context = Some \<lparr>System = None\<rparr>,
      b_request = Some \<lparr>req_type = Some ''LaunchRequest'', req_intent = None\<rparr>\<rparr>"

text \<open>
  A handler that returns a promise which is later rejected with an \<open>Error\<close>, registered
  for the AudioPlayer event \<open>PlaybackStarted\<close> in one application and as the launch
  handler in another.
\<close>

definition promise_handler :: handler where
  "promise_handler = \<lparr>h_sync = [], h_ret = RetPromise, h_async = [RejectP (EErr ''boom'')]\<rparr>"

definition app_audio_promise :: app where
  "app_audio_promise = Application_audioPlayer ''PlaybackStarted'' promise_handler new_app"

definition app_launch_promise :: app where
  "app_launch_promise = Application_launch promise_handler new_app"

definition playback_body :: body where
  "playback_body = request_of_type ''AudioPlayer.PlaybackStarted'' None"

text \<open>
  A store with three card descriptors: \<open>{type: "Standard", image: "a.png"}\<close>,
  \<open>{type: "Standard", image: {}}\<close> (the image is the cell after it), and
  \<open>{type: "Simple", title: "t"}\<close>; and a new response over it.
\<close>

definition card_heap :: heap where
  "card_heap = [Obj [(''type'', VStr ''Standard''), (''image'', VStr ''a.png'')],
                Obj [(''type'', VStr ''Standard''), (''image'', VRef 2)],
                Obj [],
                Obj [(''type'', VStr ''Simple''), (''title'', VStr ''t'')]]"

definition card_state :: state where
  "card_state = unconstructed card_heap"

section \<open>Session: verified properties\<close>

lemma on_result_simps [simp]:
  "on_result f (Inr y) = Inr (f y)" "on_result f (Inl e) = Inl e"
  by (simp_all add: on_result_def)

lemma delete_as_filter: "AList.delete k fs = filter (\<lambda>p. fst p \<noteq> k) fs"
  by (induction fs) auto

lemma fields_at_update [simp]:
  "a < length h \<Longrightarrow> fields_at (h[a := Obj fs]) a = fs"
  by (simp add: fields_at_def)

lemma fields_at_append_new [simp]: "fields_at (h @ [Obj fs]) (length h) = fs"
  by (simp add: fields_at_def)

text \<open>
  What \<open>clear\<close> does on an available session whose attribute object is in the store.
  With a string key for which \<open>this.attributes[key]\<close> is not \<open>undefined\<close>, the own
  property of that name is deleted in place and every other property keeps its value and
  its position; with any other argument the session gets a new empty attribute object.
\<close>

lemma Session_clear_effect:
  assumes "\<not> no_session s" and "attributes s < length h"
  shows "\<exists>s' h'. Session_clear s key h = Inr (s', h') \<and>
           (\<forall>k. key = VStr k \<and> lookup_prop (fields_at h (attributes s)) k \<noteq> VUndef \<longrightarrow>
                s' = s \<and>
                fields_at h' (attributes s') = filter (\<lambda>p. fst p \<noteq> k) (fields_at h (attributes s))) \<and>
           (\<not> (\<exists>k. key = VStr k \<and> lookup_prop (fields_at h (attributes s)) k \<noteq> VUndef) \<longrightarrow>
                fields_at h' (attributes s') = [])"
proof (cases "\<exists>k. key = VStr k \<and> lookup_prop (fields_at h (attributes s)) k \<noteq> VUndef")
  case True
  then obtain k where k: "key = VStr k" "lookup_prop (fields_at h (attributes s)) k \<noteq> VUndef"
    by blast
  have "Session_clear s key h
          = Inr (s, h[attributes s := Obj (AList.delete k (fields_at h (attributes s)))])"
    using assms k by (simp add: Session_clear_def)
  then show ?thesis
    using assms(2) k
    by (auto simp: delete_as_filter [symmetric])
next
  case False
  have "Session_clear s key h = Inr (s\<lparr>attributes := length h\<rparr>, h @ [Obj []])"
    using assms(1) False by (cases key) (auto simp: Session_clear_def)
  then show ?thesis using False by auto
qed

text \<open>
  C8. The first half of the claim holds: a string key that is an own property with a
  defined value is removed, and nothing else changes.
\<close>

lemma Session_clear_present_key:
  assumes "\<not> no_session s" and "attributes s < length h"
    and "map_of (fields_at h (attributes s)) k = Some v" and "v \<noteq> VUndef"
  shows "\<exists>h'. Session_clear s (VStr k) h = Inr (s, h') \<and>
           fields_at h' (attributes s) = filter (\<lambda>p. fst p \<noteq> k) (fields_at h (attributes s)) \<and>
           map_of (fields_at h' (attributes s)) = (map_of (fields_at h (attributes s)))(k := None)"
proof -
  have "lookup_prop (fields_at h (attributes s)) k \<noteq> VUndef"
    using assms(3,4) by (simp add: lookup_prop_def)
  then have "Session_clear s (VStr k) h
          = Inr (s, h[attributes s := Obj (AList.delete k (fields_at h (attributes s)))])"
    using assms(1) by (simp add: Session_clear_def)
  then show ?thesis
    using assms(2) by (simp add: delete_as_filter [symmetric] delete_conv')
qed

text \<open>
  C8. The second half fails for a string key that is not a property of the mapping but
  names a method inherited from \<open>Object.prototype\<close>: \<open>typeof this.attributes[key]\<close> is
  then \<open>"function"\<close>, the \<open>delete\<close> finds no own property, and the mapping is left as it
  was instead of being reset. Here the mapping is \<open>{x: {a: 1}}\<close> and the call is
  \<open>clear("toString")\<close>.
\<close>

theorem Session_clear_inherited_key_keeps_mapping:
  "''toString'' \<notin> fst ` set (fields_at demo_heap (attributes demo_session)) \<and>
   Session_clear demo_session (VStr ''toString'') demo_heap = Inr (demo_session, demo_heap) \<and>
   fields_at demo_heap (attributes demo_session) = [(''x'', VRef 1)]"
  by (simp add: Session_clear_def demo_session_def demo_heap_def fields_at_def
        lookup_prop_def inherited_def object_prototype_def)

lemma build_fresh:
  "\<exists>ext. snd (build h j) = h @ ext \<and>
         val_refs (fst (build h j)) \<subseteq> {length h..<length (h @ ext)} \<and>
         (\<forall>c \<in> set ext. obj_refs c \<subseteq> {length h..<length (h @ ext)})"
  and build_fields_fresh: "\<exists>ext. snd (build_fields h fs) = h @ ext \<and>
         (\<forall>p \<in> set (fst (build_fields h fs)). val_refs (snd p) \<subseteq> {length h..<length (h @ ext)}) \<and>
         (\<forall>c \<in> set ext. obj_refs c \<subseteq> {length h..<length (h @ ext)})"
  and build_elems_fresh: "\<exists>ext. snd (build_elems h js) = h @ ext \<and>
         (\<forall>v \<in> set (fst (build_elems h js)). val_refs v \<subseteq> {length h..<length (h @ ext)}) \<and>
         (\<forall>c \<in> set ext. obj_refs c \<subseteq> {length h..<length (h @ ext)})"
proof (induction h j and h fs and h js rule: build_build_fields_build_elems.induct)
  case (5 h fs)
  then obtain ext where e: "snd (build_fields h fs) = h @ ext"
     and r: "\<forall>p \<in> set (fst (build_fields h fs)). val_refs (snd p) \<subseteq> {length h..<length (h @ ext)}"
     and c: "\<forall>c \<in> set ext. obj_refs c \<subseteq> {length h..<length (h @ ext)}" by blast
  obtain vs h' where b: "build_fields h fs = (vs, h')" by (cases "build_fields h fs")
  with e have h': "h' = h @ ext" by simp
  have "snd (build h (JObj fs)) = h @ (ext @ [Obj vs])" using b h' by simp
  moreover have "val_refs (fst (build h (JObj fs))) \<subseteq> {length h..<length (h @ (ext @ [Obj vs]))}"
    using b h' by (simp add: val_refs_def)
  moreover have "\<forall>c \<in> set (ext @ [Obj vs]). obj_refs c \<subseteq> {length h..<length (h @ (ext @ [Obj vs]))}"
    using c r b by (fastforce simp: obj_refs_def)
  ultimately show ?case by blast
next
  case (6 h js)
  then obtain ext where e: "snd (build_elems h js) = h @ ext"
     and r: "\<forall>v \<in> set (fst (build_elems h js)). val_refs v \<subseteq> {length h..<length (h @ ext)}"
     and c: "\<forall>c \<in> set ext. obj_refs c \<subseteq> {length h..<length (h @ ext)}" by blast
  obtain vs h' where b: "build_elems h js = (vs, h')" by (cases "build_elems h js")
  with e have h': "h' = h @ ext" by simp
  have "snd (build h (JArr js)) = h @ (ext @ [Arr vs])" using b h' by simp
  moreover have "val_refs (fst (build h (JArr js))) \<subseteq> {length h..<length (h @ (ext @ [Arr vs]))}"
    using b h' by (simp add: val_refs_def)
  moreover have "\<forall>c \<in> set (ext @ [Arr vs]). obj_refs c \<subseteq> {length h..<length (h @ (ext @ [Arr vs]))}"
    using c r b by (fastforce simp: obj_refs_def)
  ultimately show ?case by blast
next
  case (8 h kj fs)
  obtain v h1 where b1: "build h (snd kj) = (v, h1)" by (cases "build h (snd kj)")
  obtain vs h2 where b2: "build_fields h1 fs = (vs, h2)" by (cases "build_fields h1 fs")
  from 8(1) b1 obtain e1 where e1: "h1 = h @ e1"
     and r1: "val_refs v \<subseteq> {length h..<length (h @ e1)}"
     and c1: "\<forall>c \<in> set e1. obj_refs c \<subseteq> {length h..<length (h @ e1)}" by auto
  from 8(2)[OF b1[symmetric]] b2 obtain e2 where e2: "h2 = h1 @ e2"
     and r2: "\<forall>p \<in> set vs. val_refs (snd p) \<subseteq> {length h1..<length (h1 @ e2)}"
     and c2: "\<forall>c \<in> set e2. obj_refs c \<subseteq> {length h1..<length (h1 @ e2)}" by auto
  have "snd (build_fields h (kj # fs)) = h @ (e1 @ e2)" using b1 b2 e1 e2 by simp
  moreover have "\<forall>p \<in> set (fst (build_fields h (kj # fs))). val_refs (snd p) \<subseteq> {length h..<length (h @ (e1 @ e2))}"
    using b1 b2 r1 r2 e1 by fastforce
  moreover have "\<forall>c \<in> set (e1 @ e2). obj_refs c \<subseteq> {length h..<length (h @ (e1 @ e2))}"
    using c1 c2 e1 by fastforce
  ultimately show ?case by blast
next
  case (10 h j js)
  obtain v h1 where b1: "build h j = (v, h1)" by (cases "build h j")
  obtain vs h2 where b2: "build_elems h1 js = (vs, h2)" by (cases "build_elems h1 js")
  from 10(1) b1 obtain e1 where e1: "h1 = h @ e1"
     and r1: "val_refs v \<subseteq> {length h..<length (h @ e1)}"
     and c1: "\<forall>c \<in> set e1. obj_refs c \<subseteq> {length h..<length (h @ e1)}" by auto
  from 10(2)[OF b1[symmetric]] b2 obtain e2 where e2: "h2 = h1 @ e2"
     and r2: "\<forall>v \<in> set vs. val_refs v \<subseteq> {length h1..<length (h1 @ e2)}"
     and c2: "\<forall>c \<in> set e2. obj_refs c \<subseteq> {length h1..<length (h1 @ e2)}" by auto
  have "snd (build_elems h (j # js)) = h @ (e1 @ e2)" using b1 b2 e1 e2 by simp
  moreover have "\<forall>v \<in> set (fst (build_elems h (j # js))). val_refs v \<subseteq> {length h..<length (h @ (e1 @ e2))}"
    using b1 b2 r1 r2 e1 by fastforce
  moreover have "\<forall>c \<in> set (e1 @ e2). obj_refs c \<subseteq> {length h..<length (h @ (e1 @ e2))}"
    using c1 c2 e1 by fastforce
  ultimately show ?case by blast
qed (simp_all add: val_refs_def)

text \<open>
  C6. A \<open>Session\<close> constructed from an undefined payload is not available, and its
  \<open>set\<close>, \<open>get\<close>, \<open>clear\<close> and \<open>isNew\<close> throw \<open>"NO_SESSION"\<close> (the kind
  NoSessionAvailable) whatever the arguments and the store, while \<open>getAttributes()\<close>
  succeeds and returns a new empty object.
\<close>

theorem unavailable_session_guard:
  "\<exists>s h'. Session None h = Inr (s, h') \<and>
      Session_isAvailable s \<noteq> Some True \<and>
      (\<forall>h1 k v. Session_set s k v h1 = Inl (EStr ''NO_SESSION'')) \<and>
      (\<forall>h1 k. Session_get s k h1 = Inl (EStr ''NO_SESSION'')) \<and>
      (\<forall>h1 key. Session_clear s key h1 = Inl (EStr ''NO_SESSION'')) \<and>
      Session_isNew s = Inl (EStr ''NO_SESSION'') \<and>
      (\<exists>a h2. Session_getAttributes s h' = Inr (VRef a, h2) \<and>
               a < length h2 \<and> h2 ! a = Obj [] \<and> length h' \<le> a)"
  by (simp add: Session_def Session_set_def Session_get_def Session_clear_def
      Session_isNew_def Session_getAttributes_def Session_isAvailable_def NO_SESSION_def
      nth_append)


lemma on_result_Inr: "on_result f x = Inr r \<longleftrightarrow> (\<exists>y. x = Inr y \<and> r = f y)"
  by (cases x) (auto simp: on_result_def)

lemma sequence_map_Inr:
  "sequence (map f xs) = Inr rs \<Longrightarrow> (\<And>x r. x \<in> set xs \<Longrightarrow> f x = Inr r \<Longrightarrow> g x = Inr r)
     \<Longrightarrow> sequence (map g xs) = Inr rs"
proof (induction xs arbitrary: rs)
  case Nil
  then show ?case by simp
next
  case (Cons x xs)
  from Cons.prems(1) obtain y ys where y: "f x = Inr y" and ys: "sequence (map f xs) = Inr ys"
    and rs: "rs = y # ys"
    by (auto split: sum.splits)
  have "g x = Inr y" using Cons.prems(2) y by simp
  moreover have "sequence (map g xs) = Inr ys"
    using Cons.IH [OF ys] Cons.prems(2) by simp
  ultimately show ?case using rs by simp
qed

lemma stringify_ref:
  "a < length h \<Longrightarrow> a \<notin> set stk \<Longrightarrow> stringify h stk (VRef a) =
     (case h ! a of
          Obj fs \<Rightarrow>
            on_result (\<lambda>rs. Some (JObj (keep_defined rs)))
              (sequence (map (\<lambda>p. on_result (Pair (fst p)) (stringify h (a # stk) (snd p))) fs))
        | Arr vs \<Rightarrow>
            on_result (\<lambda>rs. Some (JArr (map null_if_undefined rs)))
              (sequence (map (\<lambda>v. stringify h (a # stk) v) vs)))"
  by simp

lemma stringify_ref_Inr:
  "stringify h stk (VRef a) = Inr r \<Longrightarrow> a < length h \<and> a \<notin> set stk"
  by (auto split: if_splits)

lemma stringify_append:
  "stringify h stk v = Inr r \<Longrightarrow> stringify (h @ ext) stk v = Inr r"
proof (induction h stk v arbitrary: r rule: stringify.induct)
  case (6 h stk a)
  from stringify_ref_Inr [OF "6.prems"] have a: "a < length h" "a \<notin> set stk"
    by simp_all
  then have a': "a < length (h @ ext)" "\<not> length h \<le> a" by simp_all
  have cell: "(h @ ext) ! a = h ! a" using a by (simp add: nth_append)
  show ?case
  proof (cases "h ! a")
    case (Obj fs)
    from "6.prems" obtain rs where
      rs: "sequence (map (\<lambda>p. on_result (Pair (fst p)) (stringify h (a # stk) (snd p))) fs) = Inr rs"
      and r: "r = Some (JObj (keep_defined rs))"
      unfolding stringify_ref [OF a] Obj by (auto simp: on_result_Inr)
    have "sequence (map (\<lambda>p. on_result (Pair (fst p)) (stringify (h @ ext) (a # stk) (snd p))) fs) = Inr rs"
    proof (rule sequence_map_Inr [OF rs])
      fix x q
      assume x: "x \<in> set fs"
        and q: "on_result (Pair (fst x)) (stringify h (a # stk) (snd x)) = Inr q"
      from q obtain r' where r': "stringify h (a # stk) (snd x) = Inr r'" and q': "q = (fst x, r')"
        by (auto simp: on_result_Inr)
      have "stringify (h @ ext) (a # stk) (snd x) = Inr r'"
        by (rule "6.IH"(1) [OF a'(2) a(2) Obj x r'])
      then show "on_result (Pair (fst x)) (stringify (h @ ext) (a # stk) (snd x)) = Inr q"
        using q' by (simp add: on_result_def)
    qed
    then show ?thesis
      unfolding stringify_ref [OF a'(1) a(2)] cell Obj using r by (simp add: on_result_def)
  next
    case (Arr vs)
    from "6.prems" obtain rs where
      rs: "sequence (map (\<lambda>v. stringify h (a # stk) v) vs) = Inr rs"
      and r: "r = Some (JArr (map null_if_undefined rs))"
      unfolding stringify_ref [OF a] Arr by (auto simp: on_result_Inr)
    have "sequence (map (\<lambda>v. stringify (h @ ext) (a # stk) v) vs) = Inr rs"
    proof (rule sequence_map_Inr [OF rs])
      fix x q
      assume x: "x \<in> set vs" and q: "stringify h (a # stk) x = Inr q"
      show "stringify (h @ ext) (a # stk) x = Inr q"
        by (rule "6.IH"(2) [OF a'(2) a(2) Arr x q])
    qed
    then show ?thesis
      unfolding stringify_ref [OF a'(1) a(2)] cell Arr using r by (simp add: on_result_def)
  qed
qed simp_all


lemma build_extends:
  obtains ext where "snd (build h j) = h @ ext"
  using build_fresh [of h j] by blast

lemma build_fields_extends:
  obtains ext where "snd (build_fields h fs) = h @ ext"
  using build_fields_fresh [of h fs] by blast

lemma build_elems_extends:
  obtains ext where "snd (build_elems h js) = h @ ext"
  using build_elems_fresh [of h js] by blast

lemma keep_defined_Some [simp]: "keep_defined (map (\<lambda>p. (fst p, Some (snd p))) fs) = fs"
  by (induction fs) auto

lemma null_if_undefined_Some [simp]: "map (null_if_undefined \<circ> Some) js = js"
  by (induction js) (auto simp: null_if_undefined_def)

lemma build_roundtrip:
  "(\<forall>a \<in> set stk. a < length h \<or> length (snd (build h j)) \<le> a) \<Longrightarrow>
     stringify (snd (build h j) @ ext) stk (fst (build h j)) = Inr (Some j)"
  and build_fields_roundtrip:
   "(\<forall>a \<in> set stk. a < length h \<or> length (snd (build_fields h fs)) \<le> a) \<Longrightarrow>
     sequence (map (\<lambda>p. on_result (Pair (fst p))
                          (stringify (snd (build_fields h fs) @ ext) stk (snd p)))
                 (fst (build_fields h fs)))
       = Inr (map (\<lambda>p. (fst p, Some (snd p))) fs)"
  and build_elems_roundtrip:
   "(\<forall>a \<in> set stk. a < length h \<or> length (snd (build_elems h js)) \<le> a) \<Longrightarrow>
     sequence (map (\<lambda>v. stringify (snd (build_elems h js) @ ext) stk v)
                 (fst (build_elems h js)))
       = Inr (map Some js)"
proof (induction h j and h fs and h js arbitrary: stk ext and stk ext and stk ext
       rule: build_build_fields_build_elems.induct)
  case (5 h fs)
  obtain vs h1 where b: "build_fields h fs = (vs, h1)" by (cases "build_fields h fs")
  obtain e1 where e1: "h1 = h @ e1" using build_fields_extends [of h fs] b by auto
  have stk: "\<forall>a \<in> set stk. a < length h \<or> Suc (length h1) \<le> a"
    using "5.prems" b by simp
  have fresh: "length h1 \<notin> set stk" using stk e1 by fastforce
  have "\<forall>a \<in> set (length h1 # stk). a < length h \<or> length (snd (build_fields h fs)) \<le> a"
    using stk b by auto
  from "5.IH" [OF this, of "[Obj vs] @ ext"]
  have "sequence (map (\<lambda>p. on_result (Pair (fst p))
                          (stringify ((h1 @ [Obj vs]) @ ext) (length h1 # stk) (snd p))) vs)
       = Inr (map (\<lambda>p. (fst p, Some (snd p))) fs)"
    using b by simp
  moreover have "length h1 < length ((h1 @ [Obj vs]) @ ext)" by simp
  moreover have "((h1 @ [Obj vs]) @ ext) ! length h1 = Obj vs" by (simp add: nth_append)
  ultimately have "stringify ((h1 @ [Obj vs]) @ ext) stk (VRef (length h1)) = Inr (Some (JObj fs))"
    using fresh by (simp add: stringify_ref del: stringify.simps append_assoc)
  then show ?case using b by simp
next
  case (6 h js)
  obtain vs h1 where b: "build_elems h js = (vs, h1)" by (cases "build_elems h js")
  obtain e1 where e1: "h1 = h @ e1" using build_elems_extends [of h js] b by auto
  have stk: "\<forall>a \<in> set stk. a < length h \<or> Suc (length h1) \<le> a"
    using "6.prems" b by simp
  have fresh: "length h1 \<notin> set stk" using stk e1 by fastforce
  have "\<forall>a \<in> set (length h1 # stk). a < length h \<or> length (snd (build_elems h js)) \<le> a"
    using stk b by auto
  from "6.IH" [OF this, of "[Arr vs] @ ext"]
  have "sequence (map (\<lambda>v. stringify ((h1 @ [Arr vs]) @ ext) (length h1 # stk) v) vs)
       = Inr (map Some js)"
    using b by simp
  moreover have "length h1 < length ((h1 @ [Arr vs]) @ ext)" by simp
  moreover have "((h1 @ [Arr vs]) @ ext) ! length h1 = Arr vs" by (simp add: nth_append)
  ultimately have "stringify ((h1 @ [Arr vs]) @ ext) stk (VRef (length h1)) = Inr (Some (JArr js))"
    using fresh by (simp add: stringify_ref del: stringify.simps append_assoc)
  then show ?case using b by simp
next
  case (8 h kj fs)
  obtain v h1 where b1: "build h (snd kj) = (v, h1)" by (cases "build h (snd kj)")
  obtain vs h2 where b2: "build_fields h1 fs = (vs, h2)" by (cases "build_fields h1 fs")
  obtain e1 where e1: "h1 = h @ e1" using build_extends [of h "snd kj"] b1 by auto
  obtain e2 where e2: "h2 = h1 @ e2" using build_fields_extends [of h1 fs] b2 by auto
  have stk: "\<forall>a \<in> set stk. a < length h \<or> length h2 \<le> a"
    using "8.prems" b1 b2 by simp
  have "\<forall>a \<in> set stk. a < length h \<or> length (snd (build h (snd kj))) \<le> a"
    using stk b1 e2 by fastforce
  from "8.IH"(1) [OF this, of "e2 @ ext"]
  have hd: "stringify (h2 @ ext) stk v = Inr (Some (snd kj))"
    using b1 e2 by simp
  have "\<forall>a \<in> set stk. a < length h1 \<or> length (snd (build_fields h1 fs)) \<le> a"
    using stk b2 e1 by fastforce
  from "8.IH"(2) [OF b1 [symmetric] this, of ext]
  have tl: "sequence (map (\<lambda>p. on_result (Pair (fst p)) (stringify (h2 @ ext) stk (snd p))) vs)
       = Inr (map (\<lambda>p. (fst p, Some (snd p))) fs)"
    using b2 by simp
  show ?case using b1 b2 hd tl by simp
next
  case (10 h j js)
  obtain v h1 where b1: "build h j = (v, h1)" by (cases "build h j")
  obtain vs h2 where b2: "build_elems h1 js = (vs, h2)" by (cases "build_elems h1 js")
  obtain e1 where e1: "h1 = h @ e1" using build_extends [of h j] b1 by auto
  obtain e2 where e2: "h2 = h1 @ e2" using build_elems_extends [of h1 js] b2 by auto
  have stk: "\<forall>a \<in> set stk. a < length h \<or> length h2 \<le> a"
    using "10.prems" b1 b2 by simp
  have "\<forall>a \<in> set stk. a < length h \<or> length (snd (build h j)) \<le> a"
    using stk b1 e2 by fastforce
  from "10.IH"(1) [OF this, of "e2 @ ext"]
  have hd: "stringify (h2 @ ext) stk v = Inr (Some j)"
    using b1 e2 by simp
  have "\<forall>a \<in> set stk. a < length h1 \<or> length (snd (build_elems h1 js)) \<le> a"
    using stk b2 e1 by fastforce
  from "10.IH"(2) [OF b1 [symmetric] this, of ext]
  have tl: "sequence (map (\<lambda>v. stringify (h2 @ ext) stk v) vs) = Inr (map Some js)"
    using b2 by simp
  show ?case using b1 b2 hd tl by simp
qed simp_all


lemma lookup_prop_Cons [simp]:
  "lookup_prop (p # fs) k = (if fst p = k then snd p else lookup_prop fs k)"
  by (cases p) (simp add: lookup_prop_def)

lemma lookup_prop_Nil: "lookup_prop [] k = inherited k"
  by (simp add: lookup_prop_def)

lemma inherited_refs [simp]: "val_refs (inherited k) = {}"
  by (simp add: inherited_def val_refs_def)

lemma lookup_prop_refs:
  "\<forall>p \<in> set vs. val_refs (snd p) \<subseteq> A \<Longrightarrow> val_refs (lookup_prop vs k) \<subseteq> A"
  by (induction vs) (auto simp: lookup_prop_Nil)

lemma build_not_shared:
  "\<not> shared_reference (fst (build h j))"
  by (cases j) (simp_all add: shared_reference_def split: prod.splits)

text \<open>
  A member of the copy that the document has: it is the copy of that member. A member
  the document does not have is looked up in \<open>Object.prototype\<close>.
\<close>

lemma build_fields_lookup:
  "build_fields h fs = (vs, h') \<Longrightarrow>
   \<forall>a \<in> set stk. a < length h \<or> length h' \<le> a \<Longrightarrow>
   map_of fs k = Some jv \<Longrightarrow>
   stringify (h' @ ext) stk (lookup_prop vs k) = Inr (Some jv)
   \<and> \<not> shared_reference (lookup_prop vs k)"
proof (induction fs arbitrary: h vs h')
  case Nil
  then show ?case by simp
next
  case (Cons kj fs)
  obtain v h1 where b1: "build h (snd kj) = (v, h1)" by (cases "build h (snd kj)")
  obtain vs' h2 where b2: "build_fields h1 fs = (vs', h2)" by (cases "build_fields h1 fs")
  obtain e1 where e1: "h1 = h @ e1" using build_extends [of h "snd kj"] b1 by auto
  obtain e2 where e2: "h2 = h1 @ e2" using build_fields_extends [of h1 fs] b2 by auto
  from Cons.prems(1) b1 b2 have vs: "vs = (fst kj, v) # vs'" and h': "h' = h2" by simp_all
  show ?case
  proof (cases "fst kj = k")
    case True
    then have jv: "jv = snd kj" using Cons.prems(3) by (cases kj) simp
    have "\<forall>a \<in> set stk. a < length h \<or> length (snd (build h (snd kj))) \<le> a"
      using Cons.prems(2) b1 e2 h' by fastforce
    from build_roundtrip [OF this, of "e2 @ ext"]
    have "stringify (h2 @ ext) stk v = Inr (Some (snd kj))" using b1 e2 by simp
    moreover have "\<not> shared_reference v" using build_not_shared [of h "snd kj"] b1 by simp
    ultimately show ?thesis using True vs h' jv by simp
  next
    case False
    then have m: "map_of fs k = Some jv" using Cons.prems(3) by (cases kj) simp
    have "\<forall>a \<in> set stk. a < length h1 \<or> length h2 \<le> a"
      using Cons.prems(2) e1 h' by fastforce
    from Cons.IH [OF b2 this m]
    show ?thesis using False vs h' by simp
  qed
qed

lemma build_fields_absent:
  "build_fields h fs = (vs, h') \<Longrightarrow> map_of fs k = None \<Longrightarrow> lookup_prop vs k = inherited k"
proof (induction fs arbitrary: h vs h')
  case Nil
  then show ?case by (simp add: lookup_prop_Nil)
next
  case (Cons kj fs)
  obtain v h1 where b1: "build h (snd kj) = (v, h1)" by (cases "build h (snd kj)")
  obtain vs' h2 where b2: "build_fields h1 fs = (vs', h2)" by (cases "build_fields h1 fs")
  from Cons.prems(1) b1 b2 have vs: "vs = (fst kj, v) # vs'" by simp
  have k: "fst kj \<noteq> k" and m: "map_of fs k = None"
    using Cons.prems(2) by (cases kj; simp split: if_splits)+
  from Cons.IH [OF b2 m] show ?case using vs k by simp
qed

lemma index_val_present:
  assumes "build h j = (v, h')" and "json_index j k = Some jv"
  shows "stringify h' [] (index_val h' v k) = Inr (Some jv)"
    and "val_refs (index_val h' v k) \<subseteq> {length h..<length h'}"
    and "\<not> shared_reference (index_val h' v k)"
proof -
  from assms(2) obtain fs where j: "j = JObj fs" and m: "map_of fs k = Some jv"
    by (cases j) (simp_all add: json_index_def)
  obtain vs h1 where b: "build_fields h fs = (vs, h1)" by (cases "build_fields h fs")
  from assms(1) j b have v: "v = VRef (length h1)" and h': "h' = h1 @ [Obj vs]" by simp_all
  have ix: "index_val h' v k = lookup_prop vs k"
    using v h' by (simp add: index_val_def)
  from build_fields_fresh [of h fs] b obtain e1 where e1: "h1 = h @ e1"
    and r: "\<forall>p \<in> set vs. val_refs (snd p) \<subseteq> {length h..<length (h @ e1)}" by auto
  have "stringify (h1 @ [Obj vs]) [] (lookup_prop vs k) = Inr (Some jv)
        \<and> \<not> shared_reference (lookup_prop vs k)"
    by (rule build_fields_lookup [OF b _ m]) simp
  moreover have "val_refs (lookup_prop vs k) \<subseteq> {length h..<length (h @ e1)}"
    by (rule lookup_prop_refs [OF r])
  ultimately show "stringify h' [] (index_val h' v k) = Inr (Some jv)"
    and "val_refs (index_val h' v k) \<subseteq> {length h..<length h'}"
    and "\<not> shared_reference (index_val h' v k)"
    using ix h' e1 by auto
qed

lemma index_val_absent:
  assumes "build h j = (v, h')" and "json_index j k = None"
    and "(\<exists>fs. j = JObj fs) \<or> (\<exists>js. j = JArr js)"
  shows "index_val h' v k = inherited k"
proof (cases j)
  case (JObj fs)
  obtain vs h1 where b: "build_fields h fs = (vs, h1)" by (cases "build_fields h fs")
  from assms(1) JObj b have v: "v = VRef (length h1)" and h': "h' = h1 @ [Obj vs]" by simp_all
  have "index_val h' v k = lookup_prop vs k"
    using v h' by (simp add: index_val_def)
  moreover have "map_of fs k = None" using assms(2) JObj by (simp add: json_index_def)
  ultimately show ?thesis using build_fields_absent [OF b] by simp
next
  case (JArr js)
  obtain vs h1 where b: "build_elems h js = (vs, h1)" by (cases "build_elems h js")
  from assms(1) JArr b have v: "v = VRef (length h1)" and h': "h' = h1 @ [Arr vs]" by simp_all
  then show ?thesis by (simp add: index_val_def fields_at_def lookup_prop_Nil)
qed (use assms(3) in simp_all)

lemma stringify_ref_shape:
  assumes "stringify h stk (VRef a) = Inr (Some j)"
  shows "(\<exists>fs. j = JObj fs) \<or> (\<exists>js. j = JArr js)"
proof -
  from stringify_ref_Inr [OF assms] have a: "a < length h" "a \<notin> set stk" by simp_all
  show ?thesis
    using assms unfolding stringify_ref [OF a]
    by (cases "h ! a") (auto simp: on_result_Inr)
qed

lemma getAttributes_Inr:
  "Session_getAttributes s h = Inr (v, h') \<longleftrightarrow>
     (\<exists>j. stringify h [] (VRef (attributes s)) = Inr (Some j) \<and> build h j = (v, h'))"
  by (auto simp: Session_getAttributes_def split: sum.splits option.splits)

text \<open>
  C5, for \<open>getAttributes\<close>. Whenever \<open>getAttributes()\<close> returns, the store has only
  grown, and the returned value and every cell it can reach lie in the new part of the
  store and refer only to the new part: they share no reference with the attribute
  mapping, which lives in the old part. The copy has the JSON content of the mapping.
  Whatever is then written into the new cells (any replacement \<open>ext'\<close> of the new part,
  so any mutation of the returned objects), \<open>getAttributes()\<close> returns that same content
  again.
\<close>

lemma Session_getAttributes_is_deep_copy:
  assumes "Session_getAttributes s h = Inr (v, h')"
  shows "\<exists>ext j. h' = h @ ext \<and>
           val_refs v \<subseteq> {length h..<length h'} \<and> \<not> shared_reference v \<and>
           (\<forall>c \<in> set ext. obj_refs c \<subseteq> {length h..<length h'}) \<and>
           stringify h [] (VRef (attributes s)) = Inr (Some j) \<and>
           stringify h' [] v = Inr (Some j) \<and>
           (\<forall>ext'. \<exists>v2 h2. Session_getAttributes s (h @ ext') = Inr (v2, h2) \<and>
                              stringify h2 [] v2 = Inr (Some j))"
proof -
  from assms obtain j where j: "stringify h [] (VRef (attributes s)) = Inr (Some j)"
    and b: "build h j = (v, h')"
    by (auto simp: getAttributes_Inr)
  from build_fresh [of h j] b obtain ext where ext: "h' = h @ ext"
    and rv: "val_refs v \<subseteq> {length h..<length h'}"
    and rc: "\<forall>c \<in> set ext. obj_refs c \<subseteq> {length h..<length h'}"
    by auto
  have ns: "\<not> shared_reference v" using build_not_shared [of h j] b by simp
  have copy: "stringify h' [] v = Inr (Some j)"
    using build_roundtrip [of "[]" h j "[]"] b by simp
  have again: "Session_getAttributes s (h @ ext') = Inr (build (h @ ext') j)" for ext'
    using stringify_append [OF j, of ext'] by (simp add: Session_getAttributes_def)
  have later: "\<exists>v2 h2. Session_getAttributes s (h @ ext') = Inr (v2, h2) \<and>
                       stringify h2 [] v2 = Inr (Some j)" for ext'
    using again [of ext'] build_roundtrip [of "[]" "h @ ext'" j "[]"]
    by (cases "build (h @ ext') j") simp
  show ?thesis
    using ext rv ns rc j copy later by blast
qed

text \<open>
  C5, for \<open>get(k)\<close> on an available session, when the JSON content of the mapping has a
  member \<open>k\<close>: the value returned is the member \<open>k\<close> of the copy; it lies in the new
  part of the store, it is no reference to a shared object, and a later \<open>get(k)\<close> has
  the same content after any mutation of what was returned.
\<close>

lemma Session_get_is_deep_copy:
  assumes "Session_getAttributes s h = Inr (v, h')" and "\<not> no_session s"
    and "stringify h [] (VRef (attributes s)) = Inr (Some j)"
    and "json_index j k = Some jv"
  shows "\<exists>w. Session_get s k h = Inr (w, h') \<and>
           val_refs w \<subseteq> {length h..<length h'} \<and> \<not> shared_reference w \<and>
           stringify h' [] w = Inr (Some jv) \<and>
           (\<forall>ext'. \<exists>w2 h2. Session_get s k (h @ ext') = Inr (w2, h2) \<and>
                              stringify h2 [] w2 = Inr (Some jv))"
proof -
  have b: "build h j = (v, h')" using assms(1,3) by (auto simp: getAttributes_Inr)
  have g: "Session_get s k h = Inr (index_val h' v k, h')"
    using assms(1,2) by (simp add: Session_get_def)
  have "\<exists>w2 h2. Session_get s k (h @ ext') = Inr (w2, h2) \<and>
                  stringify h2 [] w2 = Inr (Some jv)" for ext'
  proof -
    obtain v2 h2 where b2: "build (h @ ext') j = (v2, h2)" by (cases "build (h @ ext') j")
    have "Session_getAttributes s (h @ ext') = Inr (v2, h2)"
      using stringify_append [OF assms(3), of ext'] b2 by (simp add: Session_getAttributes_def)
    then have "Session_get s k (h @ ext') = Inr (index_val h2 v2 k, h2)"
      using assms(2) by (simp add: Session_get_def)
    then show ?thesis using index_val_present(1) [OF b2 assms(4)] by blast
  qed
  then show ?thesis
    using g index_val_present [OF b assms(4)] by blast
qed

text \<open>
  When the content of the mapping has no member \<open>k\<close>, \<open>get(k)\<close> is what the copy
  inherits under that name: \<open>undefined\<close> for most names, but a shared object for a name
  that \<open>Object.prototype\<close> has.
\<close>

lemma Session_get_absent_key:
  assumes "Session_getAttributes s h = Inr (v, h')" and "\<not> no_session s"
    and "stringify h [] (VRef (attributes s)) = Inr (Some j)"
    and "json_index j k = None"
  shows "Session_get s k h = Inr (inherited k, h')"
proof -
  have b: "build h j = (v, h')" using assms(1,3) by (auto simp: getAttributes_Inr)
  have "Session_get s k h = Inr (index_val h' v k, h')"
    using assms(1,2) by (simp add: Session_get_def)
  then show ?thesis
    using index_val_absent [OF b assms(4) stringify_ref_shape [OF assms(3)]] by simp
qed

lemma inherited_is_shared: "inherited k \<noteq> VUndef \<Longrightarrow> shared_reference (inherited k)"
  by (simp add: inherited_def shared_reference_def split: if_splits)

text \<open>
  The session whose attributes are \<open>{x: {a: 1}}\<close>: \<open>getAttributes()\<close> and \<open>get("x")\<close>
  return new cells, and after \<open>v = get("x"); v.a = 2\<close> a later \<open>get("x")\<close> still has
  the content \<open>{a: 1}\<close>.
\<close>

lemma Session_get_is_deep_copy_example:
  "Session_getAttributes demo_session demo_heap
      = Inr (VRef 3, demo_heap @ [Obj [(''a'', VNum 1)], Obj [(''x'', VRef 2)]]) \<and>
   Session_get demo_session ''x'' demo_heap
      = Inr (VRef 2, demo_heap @ [Obj [(''a'', VNum 1)], Obj [(''x'', VRef 2)]]) \<and>
   (\<exists>w2 h2. Session_get demo_session ''x''
                 (demo_heap @ [Obj [(''a'', VNum 2)], Obj [(''x'', VRef 2)]]) = Inr (w2, h2) \<and>
             stringify h2 [] w2 = Inr (Some (JObj [(''a'', JNum 1)])))"
proof -
  let ?h' = "demo_heap @ [Obj [(''a'', VNum 1)], Obj [(''x'', VRef 2)]]"
  have a: "Session_getAttributes demo_session demo_heap = Inr (VRef 3, ?h')"
    by (simp add: Session_getAttributes_def demo_session_def demo_heap_def)
  have j: "stringify demo_heap [] (VRef (attributes demo_session))
             = Inr (Some (JObj [(''x'', JObj [(''a'', JNum 1)])]))"
    by (simp add: demo_session_def demo_heap_def)
  have k: "json_index (JObj [(''x'', JObj [(''a'', JNum 1)])]) ''x'' = Some (JObj [(''a'', JNum 1)])"
    by (simp add: json_index_def)
  have n: "\<not> no_session demo_session" by (simp add: demo_session_def)
  have g: "Session_get demo_session ''x'' demo_heap = Inr (VRef 2, ?h')"
    by (simp add: Session_get_def a n index_val_def fields_at_def)
       (simp add: demo_heap_def)
  from Session_get_is_deep_copy [OF a n j k]
  have "\<forall>ext'. \<exists>w2 h2. Session_get demo_session ''x'' (demo_heap @ ext') = Inr (w2, h2) \<and>
                      stringify h2 [] w2 = Inr (Some (JObj [(''a'', JNum 1)]))"
    by blast
  then show ?thesis using a g by blast
qed

text \<open>
  C5 fails on the code for a key that the mapping does not hold but \<open>Object.prototype\<close>
  has. \<open>get\<close> reads \<open>this.getAttributes()[key]\<close>, and the copy inherits from
  \<open>Object.prototype\<close> as every plain object does. Here the attributes are
  \<open>{x: {a: 1}}\<close>, which hold no \<open>__proto__\<close>: \<open>get("__proto__")\<close> returns the reference
  to \<open>Object.prototype\<close> itself and \<open>get("toString")\<close> the reference to its method.
  These are the shared objects and no copies, so what a handler writes to the value
  returned is written to the object that every plain object inherits from.
\<close>

theorem Session_get_inherited_key_returns_shared_object:
  "''__proto__'' \<notin> fst ` set (fields_at demo_heap (attributes demo_session)) \<and>
   Session_get demo_session ''__proto__'' demo_heap
      = Inr (VProto, demo_heap @ [Obj [(''a'', VNum 1)], Obj [(''x'', VRef 2)]]) \<and>
   Session_get demo_session ''toString'' demo_heap
      = Inr (VBuiltin ''toString'', demo_heap @ [Obj [(''a'', VNum 1)], Obj [(''x'', VRef 2)]]) \<and>
   shared_reference VProto \<and> shared_reference (VBuiltin ''toString'')"
  by (simp add: Session_get_def Session_getAttributes_def demo_session_def demo_heap_def
        index_val_def fields_at_def lookup_prop_def inherited_def object_prototype_def
        shared_reference_def)
section \<open>The dispatch engine: the latches\<close>

lemma same_control_refl [simp]: "same_control st st"
  by (simp add: same_control_def)

lemma same_control_trans: "same_control st st1 \<Longrightarrow> same_control st1 st2 \<Longrightarrow> same_control st st2"
  by (simp add: same_control_def)

lemma same_control_advances: "same_control st st' \<Longrightarrow> advances a st st'"
  by (simp add: same_control_def advances_def latched_def)

lemma advances_refl [simp]: "advances a st st"
  by (simp add: advances_def)

lemma advances_trans:
  assumes "advances a st st1" and "advances a st1 st2"
  shows "advances a st st2"
proof -
  from assms obtain es1 es2 where "events st1 = events st @ es1" and "events st2 = events st1 @ es2"
    unfolding advances_def by blast
  then have "events st2 = events st @ (es1 @ es2)" by simp
  then have "\<exists>es. events st2 = events st @ es" ..
  then show ?thesis using assms unfolding advances_def by simp
qed

lemma same_control_log [simp]: "same_control st (log e st)"
  by (simp add: same_control_def log_def)

lemma same_control_say [simp]: "same_control st (Response_say s st)"
  by (simp add: same_control_def Response_say_def split: option.splits)

lemma same_control_set_card [simp]: "same_control st (set_card c st)"
  by (simp add: same_control_def set_card_def)

lemma same_control_reprompt [simp]: "same_control st (Response_reprompt s st)"
  by (simp add: same_control_def Response_reprompt_def split: option.splits)

lemma same_control_clear [simp]: "same_control st (Response_clear st)"
  by (simp add: same_control_def Response_clear_def)

lemma same_control_linkAccount [simp]: "same_control st (Response_linkAccount st)"
  by (simp add: same_control_def Response_linkAccount_def set_card_def)

lemma same_control_shouldEndSession [simp]:
  "same_control st (Response_shouldEndSession b t st)"
  by (simp add: same_control_def Response_shouldEndSession_def Response_reprompt_def Let_def
        split: option.splits)

lemma same_control_directive [simp]: "same_control st (push_directive d st)"
  by (simp add: same_control_def push_directive_def)

lemma same_control_audioPlayer [simp]:
  "same_control st (Response_audioPlayerClearQueue c st)"
  "same_control st (Response_audioPlayerPlay b i st)"
  "same_control st (Response_audioPlayerPlayStream b s st)"
  "same_control st (Response_audioPlayerStop st)"
  by (simp_all add: Response_audioPlayerClearQueue_def Response_audioPlayerPlay_def
        Response_audioPlayerPlayStream_def Response_audioPlayerStop_def)
     (simp add: same_control_def push_directive_def)

lemma same_control_heap [simp]: "same_control st (st\<lparr>heap := h\<rparr>)"
  by (simp add: same_control_def)

lemma same_control_check_required:
  "check_required req a st = (b, st') \<Longrightarrow> same_control st st'"
  by (induction req) (auto simp: same_control_def log_def split: if_splits)

lemma same_control_cleanse_attrs:
  "cleanse_attrs cl a st = Inr st' \<Longrightarrow> same_control st st'"
proof (induction cl arbitrary: st)
  case Nil
  then show ?case by simp
next
  case (Cons idx rest)
  then show ?case
    by (fastforce simp: same_control_def split: val.splits)
qed

lemma same_control_card_finish:
  "card_finish req cl a st = Inr st' \<Longrightarrow> same_control st st'"
  unfolding card_finish_def
  by (auto simp: on_result_Inr same_control_def set_card_def split: prod.splits bool.splits
      dest!: same_control_check_required same_control_cleanse_attrs)

lemma same_control_card:
  "Response_card args st = Inr st' \<Longrightarrow> same_control st st'"
  unfolding Response_card_def Let_def
  by (auto simp: same_control_def set_card_def log_def
      split: if_splits sum.splits val.splits bool.splits prod.splits list.splits
      dest!: same_control_card_finish)

lemma same_control_prepare:
  "Response_prepare st = Inr st' \<Longrightarrow> same_control st st'"
  by (auto simp: Response_prepare_def Response_setSessionAttributes_def same_control_def
      split: sum.splits prod.splits)

lemma same_control_type: "Request_type r st = (t, st') \<Longrightarrow> same_control st st'"
  by (auto simp: Request_type_def same_control_def log_def split: option.splits if_splits)

lemma same_control_isAudioPlayer:
  "Request_isAudioPlayer r st = (b, st') \<Longrightarrow> same_control st st'"
  by (auto simp: Request_isAudioPlayer_def split: prod.splits option.splits
      dest: same_control_type)


lemma settles_append [simp]: "settles (xs @ ys) = settles xs @ settles ys"
  by (induction xs rule: settles.induct) simp_all

lemma posts_append [simp]: "posts (xs @ ys) = posts xs @ posts ys"
  by (induction xs rule: posts.induct) simp_all

lemma post_first_append:
  "post_first seen (xs @ ys) \<longleftrightarrow>
     post_first seen xs \<and> post_first (seen \<or> posts xs \<noteq> []) ys"
  by (induction seen xs rule: post_first.induct) auto

lemma post_first_settled:
  "post_first seen es \<Longrightarrow> settles es \<noteq> [] \<Longrightarrow> seen \<or> posts es \<noteq> []"
  by (induction seen es rule: post_first.induct) auto

lemma advances_settle:
  assumes "post_hook a \<noteq> None \<longrightarrow> postExecuted st" and "\<not> resolved st"
  shows "advances a st (settle x (st\<lparr>resolved := True\<rparr>))"
  using assms
  by (auto simp: advances_def latched_def settle_def post_first_append split: option.splits)

lemma advances_executor_throw: "advances a st (executor_throw e st)"
  by (auto simp: advances_def latched_def executor_throw_def split: option.splits)

lemma same_control_postExecuted: "same_control st st' \<Longrightarrow> postExecuted st' = postExecuted st"
  by (simp add: same_control_def)

lemma same_control_resolved: "same_control st st' \<Longrightarrow> resolved st' = resolved st"
  by (simp add: same_control_def)

lemma advances_postExecuted: "advances a st st' \<Longrightarrow> postExecuted st \<Longrightarrow> postExecuted st'"
  by (simp add: advances_def)

lemma complete_no_post_advances:
  assumes "postExecuted st" and "complete no_post a x e st = (r, st')"
  shows "advances a st st'"
proof (cases "Response_prepare st")
  case (Inl err)
  then show ?thesis using assms by (simp add: complete_def)
next
  case (Inr st1)
  then have sc: "same_control st st1" by (rule same_control_prepare)
  then have p1: "postExecuted st1" using assms(1) by (simp add: same_control_def)
  have st': "st' = (if \<not> resolved st1 then settle x (st1\<lparr>resolved := True\<rparr>) else st1)"
    using assms(2) Inr p1 by (simp add: complete_def)
  have "advances a st1 st'"
    unfolding st' using p1 by (simp add: advances_settle)
  then show ?thesis
    using same_control_advances [OF sc, of a] advances_trans by blast
qed

text \<open>Every call of user code other than \<open>send\<close> and \<open>fail\<close> leaves the latches alone.\<close>

lemma run_act_frame:
  assumes "\<And>e. c \<noteq> Send e" and "\<And>m e. c \<noteq> Fail m e"
    and "run_act sf ff c st = (r, st')"
  shows "same_control st st'"
proof (cases c)
  case (Card args)
  then show ?thesis using assms(3)
    by (auto simp: run_act_def split: sum.splits dest: same_control_card)
next
  case (SessionGet k)
  then show ?thesis using assms(3)
    by (auto simp: run_act_def same_control_def split: sum.splits prod.splits)
next
  case (SessionSet k v)
  then show ?thesis using assms(3)
    by (auto simp: run_act_def same_control_def split: sum.splits)
next
  case (SessionClear k)
  then show ?thesis using assms(3)
    by (auto simp: run_act_def same_control_def split: sum.splits)
next
  case (Send e)
  then show ?thesis using assms(1) by simp
next
  case (Fail m e)
  then show ?thesis using assms(2) by simp
qed (use assms(3) in \<open>auto simp: run_act_def\<close>)

text \<open>
  What holds of every call holds of the code of a hook, whatever it catches: \<open>R\<close> is a
  preorder on states that every call respects, from a state where \<open>Q\<close> holds.
\<close>

lemma run_act_rel:
  assumes fr: "\<And>s s'. same_control s s' \<Longrightarrow> R s s'"
    and sd: "\<And>e s r s'. Q s \<Longrightarrow> sf e s = (r, s') \<Longrightarrow> R s s'"
    and fl: "\<And>m e s r s'. Q s \<Longrightarrow> ff m e s = (r, s') \<Longrightarrow> R s s'"
    and "Q st" and one: "run_act sf ff c st = (r, st')"
  shows "R st st'"
proof (cases "(\<exists>e. c = Send e) \<or> (\<exists>m e. c = Fail m e)")
  case True
  then show ?thesis
    using one sd [OF assms(4)] fl [OF assms(4)] by (auto simp: run_act_def)
next
  case False
  then show ?thesis by (intro fr run_act_frame [OF _ _ one]) auto
qed

lemma run_stmts_rel_each:
  assumes rf: "\<And>s. R s s"
    and tr: "\<And>s1 s2 s3. R s1 s2 \<Longrightarrow> R s2 s3 \<Longrightarrow> R s1 s3"
    and mono: "\<And>s s'. Q s \<Longrightarrow> R s s' \<Longrightarrow> Q s'"
  shows "(\<And>x s r s'. x \<in> set xs \<Longrightarrow> Q s \<Longrightarrow> run_stmt sf ff x s = (r, s') \<Longrightarrow> R s s')
     \<Longrightarrow> Q st \<Longrightarrow> run_stmts sf ff xs st = (r, st') \<Longrightarrow> R st st'"
proof (induction xs arbitrary: st)
  case Nil
  then show ?case by (simp add: rf)
next
  case (Cons x xs)
  obtain r1 st1 where one: "run_stmt sf ff x st = (r1, st1)"
    by (cases "run_stmt sf ff x st")
  have adv1: "R st st1" by (rule Cons.prems(1) [OF _ Cons.prems(2) one]) simp
  have each: "R s s'" if "y \<in> set xs" "Q s" "run_stmt sf ff y s = (r0, s')" for y s r0 s'
    by (rule Cons.prems(1) [OF _ that(2,3)]) (simp add: that(1))
  show ?case
  proof (cases r1)
    case None
    then have "run_stmts sf ff xs st1 = (r, st')"
      using Cons.prems(3) one by simp
    from Cons.IH [OF each mono [OF Cons.prems(2) adv1] this]
    have "R st1 st'" by simp
    then show ?thesis using tr [OF adv1] by blast
  next
    case (Some err)
    then have "st' = st1" using Cons.prems(3) one by simp
    then show ?thesis using adv1 by simp
  qed
qed

lemma run_stmt_rel:
  assumes rf: "\<And>s. R s s"
    and tr: "\<And>s1 s2 s3. R s1 s2 \<Longrightarrow> R s2 s3 \<Longrightarrow> R s1 s3"
    and fr: "\<And>s s'. same_control s s' \<Longrightarrow> R s s'"
    and sd: "\<And>e s r s'. Q s \<Longrightarrow> sf e s = (r, s') \<Longrightarrow> R s s'"
    and fl: "\<And>m e s r s'. Q s \<Longrightarrow> ff m e s = (r, s') \<Longrightarrow> R s s'"
    and mono: "\<And>s s'. Q s \<Longrightarrow> R s s' \<Longrightarrow> Q s'"
  shows "Q st \<Longrightarrow> run_stmt sf ff x st = (r, st') \<Longrightarrow> R st st'"
proof (induction x arbitrary: st r st')
  case (Call c)
  have "run_act sf ff c st = (r, st')" using Call.prems(2) by simp
  from run_act_rel [of R Q sf ff, OF fr sd fl Call.prems(1) this]
  show ?case by simp
next
  case (Try block handler)
  have list: "R s s'"
    if "\<And>x s r s'. x \<in> set xs \<Longrightarrow> Q s \<Longrightarrow> run_stmt sf ff x s = (r, s') \<Longrightarrow> R s s'"
      and "Q s" and "run_stmts sf ff xs s = (r0, s')" for xs s r0 s'
  proof (rule run_stmts_rel_each [where R = R and Q = Q and sf = sf and ff = ff and xs = xs])
    show "R s s" for s by (rule rf)
    show "R s1 s3" if "R s1 s2" "R s2 s3" for s1 s2 s3 using that by (rule tr)
    show "Q s'" if "Q s" "R s s'" for s s' using that by (rule mono)
    show "R s s'" if "x \<in> set xs" "Q s" "run_stmt sf ff x s = (r, s')" for x s r s'
      using that by (rule \<open>\<And>x s r s'. x \<in> set xs \<Longrightarrow> Q s \<Longrightarrow> run_stmt sf ff x s = (r, s') \<Longrightarrow> R s s'\<close>)
    show "Q s" by fact
    show "run_stmts sf ff xs s = (r0, s')" by fact
  qed
  obtain r1 st1 where b: "run_stmts sf ff block st = (r1, st1)"
    by (cases "run_stmts sf ff block st")
  have a1: "R st st1" by (rule list [OF Try.IH(1) Try.prems(1) b])
  show ?case
  proof (cases r1)
    case None
    then have "st' = st1" using Try.prems(2) b by simp
    then show ?thesis using a1 by simp
  next
    case (Some e)
    then have h: "run_stmts sf ff handler st1 = (r, st')" using Try.prems(2) b by simp
    have "R st1 st'" by (rule list [OF Try.IH(2) mono [OF Try.prems(1) a1] h])
    then show ?thesis using tr [OF a1] by blast
  qed
qed

lemma run_stmts_rel:
  assumes rf: "\<And>s. R s s"
    and tr: "\<And>s1 s2 s3. R s1 s2 \<Longrightarrow> R s2 s3 \<Longrightarrow> R s1 s3"
    and fr: "\<And>s s'. same_control s s' \<Longrightarrow> R s s'"
    and sd: "\<And>e s r s'. Q s \<Longrightarrow> sf e s = (r, s') \<Longrightarrow> R s s'"
    and fl: "\<And>m e s r s'. Q s \<Longrightarrow> ff m e s = (r, s') \<Longrightarrow> R s s'"
    and mono: "\<And>s s'. Q s \<Longrightarrow> R s s' \<Longrightarrow> Q s'"
    and "Q st" and "run_stmts sf ff xs st = (r, st')"
  shows "R st st'"
proof (rule run_stmts_rel_each [where R = R and Q = Q and sf = sf and ff = ff and xs = xs])
  show "R s s" for s by (rule rf)
  show "R s1 s3" if "R s1 s2" "R s2 s3" for s1 s2 s3 using that by (rule tr)
  show "Q s'" if "Q s" "R s s'" for s s' using that by (rule mono)
  show "R s s'" if "x \<in> set xs" "Q s" "run_stmt sf ff x s = (r, s')" for x s r s'
    by (rule run_stmt_rel [of R Q sf ff, OF rf tr fr sd fl mono that(2,3)])
  show "Q st" by fact
  show "run_stmts sf ff xs st = (r, st')" by fact
qed

lemma run_stmts_advances:
  assumes sd: "\<And>e s r s'. Q s \<Longrightarrow> sf e s = (r, s') \<Longrightarrow> advances a s s'"
    and fl: "\<And>m e s r s'. Q s \<Longrightarrow> ff m e s = (r, s') \<Longrightarrow> advances a s s'"
    and mono: "\<And>s s'. Q s \<Longrightarrow> advances a s s' \<Longrightarrow> Q s'"
    and "Q st" and "run_stmts sf ff xs st = (r, st')"
  shows "advances a st st'"
proof (rule run_stmts_rel [where R = "advances a" and Q = Q and sf = sf and ff = ff and xs = xs])
  show "advances a s s" for s by simp
  show "advances a s1 s3" if "advances a s1 s2" "advances a s2 s3" for s1 s2 s3
    using that by (rule advances_trans)
  show "advances a s s'" if "same_control s s'" for s s'
    using that by (rule same_control_advances)
  show "advances a s s'" if "Q s" "sf e s = (r, s')" for e s r s' using that by (rule sd)
  show "advances a s s'" if "Q s" "ff m e s = (r, s')" for m e s r s' using that by (rule fl)
  show "Q s'" if "Q s" "advances a s s'" for s s' using that by (rule mono)
  show "Q st" by fact
  show "run_stmts sf ff xs st = (r, st')" by fact
qed

lemma call_post_advances:
  assumes "\<not> postExecuted s" and "call_post a e (s\<lparr>postExecuted := True\<rparr>) = (r, s')"
  shows "advances a s s' \<and> postExecuted s'"
proof -
  let ?s1 = "s\<lparr>postExecuted := True, events := events s @ [PostHook e]\<rparr>"
  have a1: "advances a s ?s1"
    using assms(1) by (auto simp: advances_def latched_def post_first_append)
  have run: "run_stmts (complete no_post a Resolved) (\<lambda>msg. complete no_post a (Rejected msg))
       (case post_hook a of None \<Rightarrow> [] | Some acts \<Rightarrow> acts) ?s1 = (r, s')"
    using assms(2) by (simp add: call_post_def)
  have a2: "advances a ?s1 s'"
  proof (rule run_stmts_advances [where Q = postExecuted, OF _ _ _ _ run])
    show "advances a s s'" if "postExecuted s" "complete no_post a Resolved e s = (r, s')"
      for e s r s' using that by (rule complete_no_post_advances)
    show "advances a s s'" if "postExecuted s" "complete no_post a (Rejected m) e s = (r, s')"
      for m e s r s' using that by (rule complete_no_post_advances)
    show "postExecuted s'" if "postExecuted s" "advances a s s'" for s s'
      using that by (simp add: advances_def)
    show "postExecuted ?s1" by simp
  qed
  have "postExecuted s'" using a2 by (simp add: advances_def)
  then show ?thesis using a1 a2 advances_trans by blast
qed

lemma complete_advances:
  assumes "complete (call_post a) a x e st = (r, st')"
  shows "advances a st st'"
proof (cases "Response_prepare st")
  case (Inl err)
  then show ?thesis using assms by (simp add: complete_def)
next
  case (Inr st1)
  then have sc: "same_control st st1" by (rule same_control_prepare)
  have a0: "advances a st st1" by (rule same_control_advances [OF sc])
  show ?thesis
  proof (cases "post_hook a \<noteq> None \<and> \<not> postExecuted st1")
    case True
    obtain r2 st2 where cp: "call_post a e (st1\<lparr>postExecuted := True\<rparr>) = (r2, st2)"
      by (cases "call_post a e (st1\<lparr>postExecuted := True\<rparr>)")
    from call_post_advances [OF _ cp] True
    have a2: "advances a st1 st2" and p2: "postExecuted st2" by simp_all
    show ?thesis
    proof (cases r2)
      case None
      then have st': "st' = (if \<not> resolved st2 then settle x (st2\<lparr>resolved := True\<rparr>) else st2)"
        using assms Inr True cp by (simp add: complete_def)
      have "advances a st2 st'" unfolding st' using p2 by (simp add: advances_settle)
      then show ?thesis using a0 a2 advances_trans by blast
    next
      case (Some err)
      then have "st' = st2" using assms Inr True cp by (simp add: complete_def)
      then show ?thesis using a0 a2 advances_trans by blast
    qed
  next
    case False
    then have st': "st' = (if \<not> resolved st1 then settle x (st1\<lparr>resolved := True\<rparr>) else st1)"
      using assms Inr by (auto simp: complete_def)
    have "advances a st1 st'" unfolding st' using False by (auto simp: advances_settle)
    then show ?thesis using a0 advances_trans by blast
  qed
qed

lemma send_advances: "send a e st = (r, st') \<Longrightarrow> advances a st st'"
  unfolding send_def by (rule complete_advances)

lemma fail_advances: "fail a m e st = (r, st') \<Longrightarrow> advances a st st'"
  unfolding fail_def by (rule complete_advances)

lemma user_code_advances:
  assumes "run_stmts (send a) (fail a) acts st = (r, st')"
  shows "advances a st st'"
  by (rule run_stmts_advances [where Q = "\<lambda>s. True", OF _ _ _ _ assms])
     (auto intro: send_advances fail_advances)

lemma user_call_advances:
  assumes "run_act (send a) (fail a) c st = (r, st')"
  shows "advances a st st'"
  by (rule run_act_rel [where R = "advances a" and Q = "\<lambda>s. True", OF _ _ _ _ assms])
     (auto intro: send_advances fail_advances same_control_advances)

lemma advances_events_only:
  "advances a st (st\<lparr>events := events st @ [ev]\<rparr>)"
  if "\<And>x. ev \<noteq> Settle x" and "\<And>x. ev \<noteq> PostHook x"
  using that by (cases ev) (auto simp: advances_def latched_def post_first_append)

lemma report_error_advances:
  assumes "report_error a r e st = (x, st')"
  shows "advances a st st'"
proof (cases "error_hook a")
  case (Some acts)
  then have "run_stmts (send a) (fail a) acts (st\<lparr>events := events st @ [ErrorHook e]\<rparr>) = (x, st')"
    using assms by (simp add: report_error_def)
  from user_code_advances [OF this] advances_events_only [of "ErrorHook e" a st]
  show ?thesis using advances_trans by blast
next
  case None
  obtain b sta where ap: "Request_isAudioPlayer r st = (b, sta)"
    by (cases "Request_isAudioPlayer r st")
  have a0: "advances a st sta"
    by (rule same_control_advances [OF same_control_isAudioPlayer [OF ap]])
  have "st' = st \<or> st' = sta
        \<or> send a (Some e) (Response_say (case message_for a e of Text m \<Rightarrow> m | _ \<Rightarrow> []) sta) = (x, st')
        \<or> (\<exists>m. fail a m None sta = (x, st'))
        \<or> (\<exists>y. complete (call_post a) a y None sta = (x, st'))"
    using assms None ap
    by (auto simp: report_error_def split: table_entry.splits bool.splits)
  then have "advances a sta st' \<or> st' = st"
    using send_advances [of a "Some e" "Response_say (case message_for a e of Text m \<Rightarrow> m | _ \<Rightarrow> []) sta" x st']
      same_control_advances [OF same_control_say, of a sta]
    by (auto intro: fail_advances complete_advances advances_trans)
  then show ?thesis using a0 advances_trans by auto
qed

lemma handleError_advances:
  assumes "handleError a r e st = (x, st')"
  shows "advances a st st'"
proof -
  obtain x1 st1 where first: "report_error a r e st = (x1, st1)"
    by (cases "report_error a r e st")
  have a1: "advances a st st1" by (rule report_error_advances [OF first])
  have "st' = st1 \<or> (\<exists>m. fail a m (Some e) st1 = (x, st'))"
    using assms first unfolding handleError_def
    by (auto split: option.splits if_splits sum.splits)
  then have "advances a st1 st'" by (auto intro: fail_advances)
  then show ?thesis using a1 advances_trans by blast
qed

lemma advances_callbackHandlerCalled:
  "advances a st (st\<lparr>callbackHandlerCalled := True\<rparr>)"
  by (simp add: advances_def latched_def)

lemma callbackHandler_advances:
  assumes "callbackHandler a r e st = (x, st')"
  shows "advances a st st'"
proof (cases "callbackHandlerCalled st")
  case True
  then have "st' = log (LogWarn ''Response has already been sent'') st"
    using assms by (simp add: callbackHandler_def)
  then show ?thesis by (simp add: same_control_advances)
next
  case False
  let ?s1 = "st\<lparr>callbackHandlerCalled := True\<rparr>"
  have "send a None ?s1 = (x, st') \<or> (\<exists>y. handleError a r y ?s1 = (x, st'))"
    using assms False by (auto simp: callbackHandler_def Let_def split: option.splits if_splits)
  then have "advances a ?s1 st'"
    by (auto intro: send_advances handleError_advances)
  then show ?thesis using advances_callbackHandlerCalled [of a st] advances_trans by blast
qed

lemma run_hacts_advances_each:
  "(\<And>c s x s'. c \<in> set cs \<Longrightarrow> run_hact a r c s = (x, s') \<Longrightarrow> advances a s s')
     \<Longrightarrow> run_hacts a r cs st = (x, st') \<Longrightarrow> advances a st st'"
proof (induction cs arbitrary: st)
  case Nil
  then show ?case by simp
next
  case (Cons c cs)
  obtain x1 st1 where one: "run_hact a r c st = (x1, st1)" by (cases "run_hact a r c st")
  have a1: "advances a st st1" by (rule Cons.prems(1) [OF _ one]) simp
  have each: "advances a s s'" if "d \<in> set cs" "run_hact a r d s = (y, s')" for d s y s'
    by (rule Cons.prems(1) [OF _ that(2)]) (simp add: that(1))
  show ?case
  proof (cases x1)
    case None
    then have "run_hacts a r cs st1 = (x, st')" using Cons.prems(2) one by simp
    from Cons.IH [OF each this] have "advances a st1 st'" by simp
    then show ?thesis using a1 advances_trans by blast
  next
    case (Some err)
    then have "st' = st1" using Cons.prems(2) one by simp
    then show ?thesis using a1 by simp
  qed
qed

lemma run_hact_advances:
  "run_hact a r c st = (x, st') \<Longrightarrow> advances a st st'"
proof (induction c arbitrary: st x st')
  case (Do c')
  then show ?case by (simp add: user_call_advances)
next
  case (Done e)
  then show ?case by (simp add: callbackHandler_advances)
next
  case (TryCatch block handler)
  obtain x1 st1 where b: "run_hacts a r block st = (x1, st1)"
    by (cases "run_hacts a r block st")
  have a1: "advances a st st1"
    by (rule run_hacts_advances_each [OF TryCatch.IH(1) b])
  show ?case
  proof (cases x1)
    case None
    then have "st' = st1" using TryCatch.prems b by simp
    then show ?thesis using a1 by simp
  next
    case (Some e)
    then have h: "run_hacts a r handler st1 = (x, st')" using TryCatch.prems b by simp
    have "advances a st1 st'"
      by (rule run_hacts_advances_each [OF TryCatch.IH(2) h])
    then show ?thesis using a1 advances_trans by blast
  qed
qed

lemma run_hacts_advances:
  "run_hacts a r cs st = (x, st') \<Longrightarrow> advances a st st'"
  by (rule run_hacts_advances_each [OF run_hact_advances])

lemma invoke_advances:
  assumes "invoke a r h w kind st = ((x, p), st')"
  shows "advances a st st'"
proof -
  let ?s0 = "st\<lparr>events := events st @ [HandlerCall]\<rparr>"
  obtain x1 st1 where run: "run_hacts a r (h_sync h) ?s0 = (x1, st1)"
    by (cases "run_hacts a r (h_sync h) ?s0")
  have a1: "advances a st st1"
    using run_hacts_advances [OF run] advances_events_only [of HandlerCall a st] advances_trans
    by blast
  let ?s2 = "st1\<lparr>events := events st1 @ [HandlerReturned (h_ret h)]\<rparr>"
  have a2: "advances a st ?s2"
    using a1 advances_events_only [of "HandlerReturned (h_ret h)" a st1] advances_trans
    by blast
  show ?thesis
  proof (cases x1)
    case (Some err)
    then have "st' = st1" using assms run by (simp add: invoke_def)
    then show ?thesis using a1 by simp
  next
    case None
    show ?thesis
    proof (cases "w \<or> h_ret h = RetFalse")
      case True
      then have "st' = ?s2 \<or> st' = log (LogTrace (trace_note kind)) ?s2"
        using assms run None by (auto simp: invoke_def Let_def split: if_splits)
      then have "advances a ?s2 st'" by (auto simp: same_control_advances)
      then show ?thesis using a2 advances_trans by blast
    next
      case False
      obtain y st3 where cb: "callbackHandler a r None ?s2 = (y, st3)"
        by (cases "callbackHandler a r None ?s2")
      then have "st' = st3" using assms run None False by (simp add: invoke_def Let_def)
      then show ?thesis using callbackHandler_advances [OF cb] a2 advances_trans by blast
    qed
  qed
qed

lemma dispatch_intent_advances:
  assumes "dispatch_intent a r st = ((x, p), st')"
  shows "advances a st st'"
proof -
  have "st' = st \<or> (\<exists>h w kind. invoke a r h w kind st = ((x, p), st'))"
    using assms unfolding dispatch_intent_def
    by (auto split: option.splits)
  then show ?thesis by (auto intro: invoke_advances)
qed

lemma dispatch_launch_advances:
  assumes "dispatch_launch a r st = ((x, p), st')"
  shows "advances a st st'"
proof -
  have "st' = st \<or> (\<exists>h w kind. invoke a r h w kind st = ((x, p), st'))"
    using assms unfolding dispatch_launch_def
    by (auto split: option.splits)
  then show ?thesis by (auto intro: invoke_advances)
qed

lemma dispatch_sessionEnded_advances:
  assumes "dispatch_sessionEnded a r st = ((x, p), st')"
  shows "advances a st st'"
proof -
  have "(\<exists>y. send a None st = (y, st')) \<or> (\<exists>h w kind. invoke a r h w kind st = ((x, p), st'))"
    using assms unfolding dispatch_sessionEnded_def
    by (auto split: option.splits prod.splits)
  then show ?thesis by (auto intro: invoke_advances send_advances)
qed

lemma dispatch_other_advances:
  assumes "dispatch_other a r t st = ((x, p), st')"
  shows "advances a st st'"
proof -
  obtain b sta where ap: "Request_isAudioPlayer r st = (b, sta)"
    by (cases "Request_isAudioPlayer r st")
  have a0: "advances a st sta"
    by (rule same_control_advances [OF same_control_isAudioPlayer [OF ap]])
  have "st' = sta \<or> (\<exists>y. send a None sta = (y, st'))
        \<or> (\<exists>h w kind. invoke a r h w kind sta = ((x, p), st'))"
    using assms ap unfolding dispatch_other_def
    by (auto split: option.splits prod.splits bool.splits)
  then have "advances a sta st'" by (auto intro: invoke_advances send_advances)
  then show ?thesis using a0 advances_trans by blast
qed

lemma dispatch_advances:
  assumes "dispatch a r t st = ((x, p), st')"
  shows "advances a st st'"
proof -
  have "dispatch_intent a r st = ((x, p), st') \<or> dispatch_launch a r st = ((x, p), st')
      \<or> dispatch_sessionEnded a r st = ((x, p), st') \<or> dispatch_other a r t st = ((x, p), st')"
    using assms unfolding dispatch_def by (simp split: if_splits)
  then show ?thesis
    by (elim disjE)
       (erule dispatch_intent_advances dispatch_launch_advances dispatch_sessionEnded_advances
          dispatch_other_advances)+
qed

lemma try_block_advances:
  assumes "try_block a r t st = ((x, p), st')"
  shows "advances a st st'"
proof -
  obtain x1 st1 where pre: "(case pre_hook a of
              Some acts \<Rightarrow>
                run_stmts (send a) (fail a) acts (st\<lparr>events := events st @ [PreHook]\<rparr>)
            | None \<Rightarrow> (None, st)) = (x1, st1)"
    by (rule prod.exhaust)
  have a1: "advances a st st1"
  proof (cases "pre_hook a")
    case None
    then show ?thesis using pre by simp
  next
    case (Some acts)
    then have "run_stmts (send a) (fail a) acts (st\<lparr>events := events st @ [PreHook]\<rparr>) = (x1, st1)"
      using pre by simp
    from user_code_advances [OF this] advances_events_only [of PreHook a st]
    show ?thesis using advances_trans by blast
  qed
  have "st' = st1 \<or> dispatch a r t st1 = ((x, p), st')"
    using assms pre unfolding try_block_def by (auto split: option.splits if_splits)
  then have "advances a st1 st'" by (auto intro: dispatch_advances)
  then show ?thesis using a1 advances_trans by blast
qed

lemma latched_initial [simp]: "latched a (initial_state s h)"
  by (simp add: latched_def initial_state_def)

lemma executor_latched:
  assumes "executor a b h = (p, ro, st)"
  shows "latched a st"
proof (cases "Request b h")
  case (Inl e)
  then have "st = executor_throw e (unconstructed h)"
    using assms by (simp add: executor_def)
  moreover have "latched a (unconstructed h)" by (simp add: unconstructed_def)
  ultimately show ?thesis using advances_executor_throw [of a "unconstructed h" e]
    by (simp add: advances_def)
next
  case (Inr rsh)
  obtain r s h' where rsh: "rsh = (r, s, h')" by (cases rsh)
  obtain t st0 where ty: "Request_type r (initial_state s h') = (t, st0)"
    by (cases "Request_type r (initial_state s h')")
  have l0: "latched a st0"
    using same_control_advances [OF same_control_type [OF ty], of a]
    by (simp add: advances_def)
  obtain x2 p2 st2 where tb: "try_block a r t st0 = ((x2, p2), st2)"
    by (metis surj_pair)
  have l2: "latched a st2"
    using try_block_advances [OF tb] l0 by (simp add: advances_def)
  show ?thesis
  proof (cases x2)
    case None
    then have "st = st2" using assms Inr rsh ty tb by (simp add: executor_def)
    then show ?thesis using l2 by simp
  next
    case (Some e)
    obtain x3 st3 where he: "handleError a r e st2 = (x3, st3)"
      by (cases "handleError a r e st2")
    have l3: "latched a st3"
      using handleError_advances [OF he] l2 by (simp add: advances_def)
    have "st = st3 \<or> (\<exists>y. st = executor_throw y st3)"
      using assms Inr rsh ty tb Some he by (auto simp: executor_def split: option.splits)
    then show ?thesis
      using l3 advances_executor_throw [of a st3] by (auto simp: advances_def)
  qed
qed

lemma run_ticks_advances: "advances a st (run_ticks a r sub ts st)"
proof (induction ts arbitrary: sub st)
  case Nil
  then show ?case by simp
next
  case (Cons t ts)
  show ?case
  proof (cases t)
    case (Tick xs)
    have "advances a st (snd (run_hacts a r xs st))"
      by (cases "run_hacts a r xs st") (auto intro: run_hacts_advances)
    from advances_trans [OF this Cons.IH] show ?thesis using Tick by simp
  next
    case Fulfil
    have "advances a st (snd (callbackHandler a r None st))"
      by (cases "callbackHandler a r None st") (auto intro: callbackHandler_advances)
    from advances_trans [OF this Cons.IH] Cons.IH [of st sub]
    show ?thesis using Fulfil by (cases sub) simp_all
  next
    case (RejectP e)
    have "advances a st (snd (callbackHandler a r (Some (callback_reason e)) st))"
      by (cases "callbackHandler a r (Some (callback_reason e)) st")
         (auto intro: callbackHandler_advances)
    from advances_trans [OF this Cons.IH] Cons.IH [of st sub]
    show ?thesis using RejectP by (cases sub) simp_all
  qed
qed

lemma request_latched: "latched a (Application_request a b h)"
proof -
  obtain p ro st where ex: "executor a b h = (p, ro, st)" by (metis surj_pair)
  have l: "latched a st" by (rule executor_latched [OF ex])
  show ?thesis
  proof (cases ro)
    case None
    then show ?thesis using ex l by (simp add: Application_request_def)
  next
    case (Some r)
    then have "Application_request a b h = run_ticks a r (subscribed p) (later p) st"
      using ex by (simp add: Application_request_def)
    then show ?thesis using run_ticks_advances [of a st r "subscribed p" "later p"] l
      by (simp add: advances_def)
  qed
qed







section \<open>The dispatch engine: verified properties\<close>


lemma post_not_repeated:
  assumes "advances a st st'" and "latched a st" and "postExecuted st"
  shows "posts (events st') = posts (events st)"
proof -
  from assms(1) obtain es where es: "events st' = events st @ es"
    unfolding advances_def by blast
  have l': "latched a st'" using assms(1,2) by (simp add: advances_def)
  have "length (posts (events st) @ posts es) \<le> 1"
    using l' es by (simp add: latched_def)
  moreover have "posts (events st) \<noteq> []" using assms(2,3) by (simp add: latched_def)
  ultimately have "posts es = []" by (cases "posts (events st)") auto
  then show ?thesis using es by simp
qed




text \<open>
  The third way to a pending promise. The post hook throws and the launch handler is
  \<open>try { done() } catch (e) {}\<close>: \<open>done\<close> sets its latch and calls \<open>response.send\<close>, in
  which the post hook throws before \<open>resolve\<close> is reached; the handler catches that and
  returns, and the call of the callback that follows finds the latch set and only
  warns. The promise is pending when the executor returns, and stays so.
\<close>

lemma caught_throw_of_done_leaves_promise_pending:
  "outer (Application_request app_catching_done launch_body []) = None \<and>
   callbackHandlerCalled (Application_request app_catching_done launch_body []) \<and>
   events (Application_request app_catching_done launch_body [])
     = [PreHook, HandlerCall, PostHook None, HandlerReturned RetOther] \<and>
   console (Application_request app_catching_done launch_body [])
     = [LogWarn ''Response has already been sent'']"
  by code_simp

text \<open>
  C4, as amended. In every dispatch the post hook is invoked at most once. When it is a
  function, every call of \<open>resolve\<close> or \<open>reject\<close> that the engine makes comes after its
  invocation, so a dispatch that the engine resolves or rejects has invoked it exactly
  once. Once it has been invoked, a further \<open>send\<close> or \<open>fail\<close> does not invoke it again.
\<close>

theorem post_hook_at_most_once_and_first:
  "length (posts (events (Application_request a b h))) \<le> 1 \<and>
   (post_hook a \<noteq> None \<longrightarrow>
      post_first False (events (Application_request a b h)) \<and>
      (settles (events (Application_request a b h)) \<noteq> [] \<longrightarrow>
         length (posts (events (Application_request a b h))) = 1)) \<and>
   (\<forall>st e m. latched a st \<and> postExecuted st \<longrightarrow>
      posts (events (snd (send a e st))) = posts (events st) \<and>
      posts (events (snd (fail a m e st))) = posts (events st))"
proof (intro conjI allI impI)
  let ?es = "events (Application_request a b h)"
  have l: "latched a (Application_request a b h)" by (rule request_latched)
  show n: "length (posts ?es) \<le> 1" using l by (simp add: latched_def)
  { assume f: "post_hook a \<noteq> None"
    then show pf: "post_first False ?es" using l by (simp add: latched_def)
    assume "settles ?es \<noteq> []"
    from post_first_settled [OF pf this] have "posts ?es \<noteq> []" by simp
    then show "length (posts ?es) = 1" using n by (cases "posts ?es") auto }
next
  fix st e m
  assume pre: "latched a st \<and> postExecuted st"
  have s: "advances a st (snd (send a e st))"
    by (cases "send a e st") (auto intro: send_advances)
  have f: "advances a st (snd (fail a m e st))"
    by (cases "fail a m e st") (auto intro: fail_advances)
  show "posts (events (snd (send a e st))) = posts (events st)"
    using post_not_repeated [OF s] pre by simp
  show "posts (events (snd (fail a m e st))) = posts (events st)"
    using post_not_repeated [OF f] pre by simp
qed

text \<open>
  C4, as stated, fails: when the launch handler returns \<open>false\<close> and never completes,
  the post hook is never invoked.
\<close>

theorem post_hook_never_fires_for_silent_handler:
  "posts (events (Application_request app_returning_false launch_body [])) = []"
  by code_simp

theorem post_hook_at_most_once_and_first_witness:
  "post_hook app_sending_twice \<noteq> None \<and>
   events (Application_request app_sending_twice launch_body [])
     = [PreHook, HandlerCall, PostHook None, Settle Resolved, HandlerReturned RetOther] \<and>
   length (posts (events (Application_request app_sending_twice launch_body []))) = 1 \<and>
   post_first False (events (Application_request app_sending_twice launch_body []))"
proof -
  let ?st = "Application_request app_sending_twice launch_body []"
  have p: "post_hook app_sending_twice \<noteq> None" by code_simp
  have e: "events ?st = [PreHook, HandlerCall, PostHook None, Settle Resolved, HandlerReturned RetOther]"
    by code_simp
  then have s: "settles (events ?st) \<noteq> []" by simp
  from post_hook_at_most_once_and_first [of app_sending_twice launch_body "[]"] p s e
  show ?thesis by simp
qed





subsection \<open>Hooks that only compose the response\<close>

lemma composed_refl [simp]: "composed st st"
  by (simp add: composed_def)









subsection \<open>What \<open>SSML.fromStr\<close> makes of plain text\<close>

lemma lower_less_than [simp]: "lower c = CHR ''<'' \<longleftrightarrow> c = CHR ''<''"
proof (cases "map_of (zip ''ABCDEFGHIJKLMNOPQRSTUVWXYZ'' ''abcdefghijklmnopqrstuvwxyz'') c")
  case None
  then show ?thesis by (simp add: lower_def)
next
  case (Some l)
  then have "(c, l) \<in> set (zip ''ABCDEFGHIJKLMNOPQRSTUVWXYZ'' ''abcdefghijklmnopqrstuvwxyz'')"
    by (rule map_of_SomeD)
  then have "c \<in> set ''ABCDEFGHIJKLMNOPQRSTUVWXYZ''" and "l \<in> set ''abcdefghijklmnopqrstuvwxyz''"
    by (auto dest: set_zip_leftD set_zip_rightD)
  then have "c \<noteq> CHR ''<''" and "l \<noteq> CHR ''<''" by auto
  then show ?thesis using Some by (simp add: lower_def)
qed








subsection \<open>The recovery from a known error kind\<close>






text \<open>
  C9. When the body has a \<open>session\<close> without a \<open>user\<close>, or (its session being absent or
  well-formed) a \<open>context\<close> without a \<open>System\<close>, the construction of the \<open>Request\<close>
  throws a \<open>TypeError\<close> outside the \<open>try\<close>: the outer promise is rejected with that
  \<open>TypeError\<close> itself, and nothing has happened before: no pre hook, no handler, no error
  hook, no post hook, no call of \<open>resolve\<close> or \<open>reject\<close>.
\<close>

theorem malformed_body_rejects_before_any_hook:
  "(\<forall>sp. b_session b = Some sp \<and> sp_user sp = None \<longrightarrow>
       outer (Application_request a b h) = Some (RejectedWith (cannot_read ''accessToken'')) \<and>
       events (Application_request a b h) = []) \<and>
   (\<forall>c. (\<forall>sp. b_session b = Some sp \<longrightarrow> sp_user sp \<noteq> None) \<and>
        b_context b = Some c \<and> System c = None \<longrightarrow>
       outer (Application_request a b h) = Some (RejectedWith (cannot_read ''user'')) \<and>
       events (Application_request a b h) = [])"
proof (intro conjI allI impI)
  fix sp
  assume "b_session b = Some sp \<and> sp_user sp = None"
  then have "Request b h = Inl (cannot_read ''accessToken'')"
    by (simp add: Request_def Session_def)
  then have "Application_request a b h
               = executor_throw (cannot_read ''accessToken'') (unconstructed h)"
    by (simp add: Application_request_def executor_def)
  then show "outer (Application_request a b h) = Some (RejectedWith (cannot_read ''accessToken''))"
    and "events (Application_request a b h) = []"
    by (simp_all add: executor_throw_def unconstructed_def initial_state_def)
next
  fix c
  assume c: "(\<forall>sp. b_session b = Some sp \<longrightarrow> sp_user sp \<noteq> None) \<and>
        b_context b = Some c \<and> System c = None"
  then have "\<exists>s h'. Session (b_session b) h = Inr (s, h')"
    by (auto simp: Session_def Let_def split: option.splits)
  then have "Request b h = Inl (cannot_read ''user'')"
    using c by (auto simp: Request_def)
  then have "Application_request a b h
               = executor_throw (cannot_read ''user'') (unconstructed h)"
    by (simp add: Application_request_def executor_def)
  then show "outer (Application_request a b h) = Some (RejectedWith (cannot_read ''user''))"
    and "events (Application_request a b h) = []"
    by (simp_all add: executor_throw_def unconstructed_def initial_state_def)
qed

theorem malformed_body_rejects_before_any_hook_witness:
  "outer (Application_request app_sending_twice body_without_user [])
     = Some (RejectedWith (cannot_read ''accessToken'')) \<and>
   events (Application_request app_sending_twice body_without_user []) = [] \<and>
   outer (Application_request app_sending_twice body_without_System [])
     = Some (RejectedWith (cannot_read ''user'')) \<and>
   events (Application_request app_sending_twice body_without_System []) = []"
proof -
  have u: "\<exists>sp. b_session body_without_user = Some sp \<and> sp_user sp = None"
    by (simp add: body_without_user_def)
  have s: "(\<forall>sp. b_session body_without_System = Some sp \<longrightarrow> sp_user sp \<noteq> None) \<and>
        b_context body_without_System = Some \<lparr>System = None\<rparr> \<and> System \<lparr>System = None\<rparr> = None"
    by (simp add: body_without_System_def)
  from malformed_body_rejects_before_any_hook [of body_without_user app_sending_twice "[]"] u
    malformed_body_rejects_before_any_hook [of body_without_System app_sending_twice "[]"] s
  show ?thesis by blast
qed



text \<open>In the AudioPlayer branch the callback is never subscribed to a promise.\<close>

lemma audio_branch_never_subscribes:
  "subscribed (snd (fst (invoke a r h eventHandlerObject_then kind st))) = False"
  by (simp add: invoke_def eventHandlerObject_then_def Let_def split: prod.splits option.splits)

text \<open>
  C2 fails on the code for AudioPlayer events. The handler of \<open>PlaybackStarted\<close> returns
  a promise that is rejected later. The engine does not subscribe to it: it calls the
  callback at once, so the outer promise is resolved when the executor returns, and the
  rejection changes nothing. The same handler as launch handler is awaited: the promise
  is pending when the executor returns, and the rejection takes the error path.
\<close>

theorem audio_handler_promise_is_not_awaited:
  "subscribed (fst (executor app_audio_promise playback_body [])) = False \<and>
   outer (snd (snd (executor app_audio_promise playback_body []))) = Some Resolved \<and>
   outer (Application_request app_audio_promise playback_body []) = Some Resolved \<and>
   subscribed (fst (executor app_launch_promise launch_body [])) = True \<and>
   outer (snd (snd (executor app_launch_promise launch_body []))) = None \<and>
   outer (Application_request app_launch_promise launch_body [])
     = Some (Rejected ''Unhandled exception: boom.'')"
  by code_simp

text \<open>
  C7 fails on the code for a \<open>Standard\<close> descriptor that lacks the required \<open>text\<close> and
  whose \<open>image\<close> is not an object, here \<open>{type: "Standard", image: "a.png"}\<close>: the
  test of the image sizes applies the operator \<open>in\<close> to the string, which throws a
  \<open>TypeError\<close>, before the required fields are looked at.
\<close>

theorem card_with_text_missing_and_image_not_an_object_throws:
  "\<not> has_prop (fields_at (heap card_state) 0) ''text'' \<and>
   Response_card [VRef 0] card_state
     = Inl (EErr ''Cannot use the in operator to search for smallImageUrl'')"
  by code_simp

text \<open>
  C7 holds for the other descriptors it names. For a card that is an object: a \<open>Simple\<close>
  card without \<open>content\<close>, a \<open>Standard\<close> card whose image is an object with neither
  size, and a \<open>Standard\<close> card without \<open>text\<close> whose image is absent or an object with
  a size, all leave the state as it was except for one error on the console, and
  nothing is thrown.
\<close>

lemma Response_card_validation:
  assumes "fields_at (heap st) a = fs"
  shows "lookup_prop fs ''type'' = VStr ''Simple'' \<and> \<not> has_prop fs ''content'' \<longrightarrow>
           Response_card [VRef a] st
             = Inr (log (LogError (''Card object is missing required attr ''
                                    @ [CHR 0x22] @ ''content'' @ [CHR 0x22])) st)"
    and "lookup_prop fs ''type'' = VStr ''Standard'' \<and> has_prop fs ''image'' \<and>
         lookup_prop fs ''image'' = VRef i \<and>
         \<not> has_prop (fields_at (heap st) i) ''smallImageUrl'' \<and>
         \<not> has_prop (fields_at (heap st) i) ''largeImageUrl'' \<longrightarrow>
           Response_card [VRef a] st
             = Inr (log (LogError ''If card.image is defined, must specify at least smallImageUrl or largeImageUrl'') st)"
    and "lookup_prop fs ''type'' = VStr ''Standard'' \<and> \<not> has_prop fs ''text'' \<and>
         (\<not> has_prop fs ''image'' \<or>
          (lookup_prop fs ''image'' = VRef i \<and>
           (has_prop (fields_at (heap st) i) ''smallImageUrl''
            \<or> has_prop (fields_at (heap st) i) ''largeImageUrl''))) \<longrightarrow>
           Response_card [VRef a] st
             = Inr (log (LogError (''Card object is missing required attr ''
                                    @ [CHR 0x22] @ ''text'' @ [CHR 0x22])) st)"
  using assms
  by (auto simp: Response_card_def get_member_def index_val_def card_finish_def
        card_image_invalid_def in_operator_def split: bool.splits)


end
